theory Spec2Isabelle
  imports Main "HOL-Library.Word"
begin

unbundle bit_operations_syntax

section \<open>SPU streaming ring buffer (examples/sound/cdstream/stream.c)\<close>

text \<open>
  The module streams audio to the PlayStation SPU from a ring buffer. The target is a
  32-bit MIPS: \<open>size_t\<close>, \<open>uint32_t\<close> and \<open>int\<close> are all 32 bits wide, so every
  integer of the source is a \<open>32 word\<close>. Unsigned arithmetic wraps; a value read as
  \<open>int\<close> is the same word read with \<open>sint\<close>, and \<open>int\<close> subtraction wraps as the
  machine's \<open>subu\<close> does.

  Every operation is modelled as one atomic step: the critical sections of the source
  are there to make it so, and the interrupt handler runs to completion.
\<close>

type_synonym u32 = "32 word"

text \<open>A callback is a function pointer; \<open>None\<close> is the null pointer.\<close>

type_synonym callback = nat

text \<open>A pointer to a Stream_Context; the null pointer is \<open>None\<close> where it can occur.\<close>

type_synonym ctx_ptr = nat

datatype handler = Null_Handler | Spu_Irq_Handler | Spu_Dma_Handler | Other_Handler nat

text \<open>
  Modelled from the spec: the header stream.h, with the declarations of Stream_Config,
  Stream_Buffer and Stream_Context, is not among the sources. The three records below
  take the field names from their uses in stream.c, the widths from the casts and
  locals there (\<open>size_t head\<close>, \<open>size_t tail\<close>, \<open>(int) ctx->buffer.length\<close>,
  \<open>(int) ctx->chunk_size\<close>) and the rest from the spec's data model; the double-buffer
  index, which only ever holds 0 or 1, is given a full word.
\<close>

record Stream_Config =
  spu_address :: u32
  channel_mask :: u32
  interleave :: u32
  buffer_size :: u32
  refill_threshold :: u32
  sample_rate :: u32
  refill_callback :: "callback option"
  underrun_callback :: "callback option"

text \<open>
  \<open>data\<close> is the address of the allocated byte array (0 is the null pointer). The code
  under study never reads or writes the bytes themselves: the producer writes through
  the pointer that Stream_GetFeedPtr hands out and the SPU driver reads through the
  pointer given to SpuWrite. The field \<open>length\<close> of the source is \<open>length_bytes\<close> here.
\<close>

record Stream_Buffer =
  data :: u32
  head :: u32
  tail :: u32
  length_bytes :: u32

record Stream_Context =
  config :: Stream_Config
  buffer :: Stream_Buffer
  old_irq_handler :: handler
  old_dma_handler :: handler
  num_channels :: u32
  chunk_size :: u32
  db_active :: u32
  buffering :: bool
  callback_issued :: bool
  chunk_counter :: u32

text \<open>
  What the module does to the outside world, in the order it does it: the calls of the
  two user callbacks, the writes of SPU registers and the calls of the SPU driver.
  The macros getSPUAddr and getSPUSampleRate belong to the SDK, so a register value
  records the argument the macro is applied to.
\<close>

datatype spu_reg =
    SPU_IRQ_ADDR
  | SPU_CH_LOOP_ADDR u32
  | SPU_CH_ADDR u32
  | SPU_CH_FREQ u32
  | SPU_CH_ADSR1 u32
  | SPU_CH_ADSR2 u32

datatype reg_value = GetSPUAddr u32 | GetSPUSampleRate u32 | Raw "16 word"

datatype spu_event =
    Underrun_Callback callback
  | Refill_Callback callback
  | Reg_Write spu_reg reg_value
  | SpuSetTransferStartAddr u32
  | SpuWrite u32 u32
  | SpuSetKey u32 u32
  | SpuIsTransferCompleted_Wait

text \<open>
  The global state: the memory holding the stream contexts, the static pointer
  \<open>_active_ctx\<close>, the SPU control register (read and written in place by the
  handlers) and the two interrupt vectors that Stream_Init installs.
\<close>

record system =
  ctxs :: "ctx_ptr \<Rightarrow> Stream_Context"
  active_ctx :: "ctx_ptr option"
  SPU_CTRL :: "16 word"
  irq_vector :: handler
  dma_vector :: handler

datatype error = Assertion_Failed | Division_By_Zero

definition DUMMY_BLOCK_ADDR :: u32 where
  "DUMMY_BLOCK_ADDR = 0x1000"

subsection \<open>Loops over the channel mask\<close>

text \<open>
  The loop of the interrupt handler: for every set bit of the mask, in ascending
  channel order, point the channel's loop address at \<open>address + offset\<close> and advance
  \<open>offset\<close> by the interleave.
\<close>

function irq_channels :: "u32 \<Rightarrow> u32 \<Rightarrow> u32 \<Rightarrow> u32 \<Rightarrow> u32 \<Rightarrow> spu_event list" where
  "irq_channels ch msk offset address il =
     (if msk = 0 then []
      else if msk AND 1 = 0 then irq_channels (ch + 1) (drop_bit 1 msk) offset address il
      else Reg_Write (SPU_CH_LOOP_ADDR ch) (GetSPUAddr (address + offset))
           # irq_channels (ch + 1) (drop_bit 1 msk) (offset + il) address il)"
  by pat_completeness auto
termination
  by (relation "measure (\<lambda>(ch, msk, offset, address, il). unat msk)")
     (auto simp: unat_drop_bit_eq drop_bit_eq_div unat_div unat_gt_0)

text \<open>The loop of Stream_Start: start address, pitch and envelope of every channel.\<close>

function start_channels :: "u32 \<Rightarrow> u32 \<Rightarrow> u32 \<Rightarrow> u32 \<Rightarrow> u32 \<Rightarrow> spu_event list" where
  "start_channels ch msk address rate il =
     (if msk = 0 then []
      else if msk AND 1 = 0 then start_channels (ch + 1) (drop_bit 1 msk) address rate il
      else [Reg_Write (SPU_CH_ADDR ch) (GetSPUAddr address),
            Reg_Write (SPU_CH_FREQ ch) (GetSPUSampleRate rate),
            Reg_Write (SPU_CH_ADSR1 ch) (Raw 0x00ff),
            Reg_Write (SPU_CH_ADSR2 ch) (Raw 0x0000)]
           @ start_channels (ch + 1) (drop_bit 1 msk) (address + il) rate il)"
  by pat_completeness auto
termination
  by (relation "measure (\<lambda>(ch, msk, address, rate, il). unat msk)")
     (auto simp: unat_drop_bit_eq drop_bit_eq_div unat_div unat_gt_0)

text \<open>The loop of Stream_Stop: every channel of the mask is pointed at the dummy block.\<close>

function stop_channels :: "u32 \<Rightarrow> u32 \<Rightarrow> spu_event list" where
  "stop_channels ch msk =
     (if msk = 0 then []
      else if msk AND 1 = 0 then stop_channels (ch + 1) (drop_bit 1 msk)
      else Reg_Write (SPU_CH_ADDR ch) (GetSPUAddr DUMMY_BLOCK_ADDR)
           # stop_channels (ch + 1) (drop_bit 1 msk))"
  by pat_completeness auto
termination
  by (relation "measure (\<lambda>(ch, msk). unat msk)")
     (auto simp: unat_drop_bit_eq drop_bit_eq_div unat_div unat_gt_0)

text \<open>The loop of Stream_Init: the number of set bits of the mask.\<close>

function count_channels :: "u32 \<Rightarrow> u32 \<Rightarrow> u32" where
  "count_channels msk n =
     (if msk = 0 then n
      else count_channels (drop_bit 1 msk) (if msk AND 1 \<noteq> 0 then n + 1 else n))"
  by pat_completeness auto
termination
  by (relation "measure (\<lambda>(msk, n). unat msk)")
     (auto simp: unat_drop_bit_eq drop_bit_eq_div unat_div unat_gt_0)

text \<open>The loops are unfolded on demand only.\<close>

declare irq_channels.simps [simp del]
declare start_channels.simps [simp del]
declare stop_channels.simps [simp del]
declare count_channels.simps [simp del]

subsection \<open>Interrupt handler\<close>

text \<open>
  \<open>_spu_irq_handler\<close>. The interrupt is acknowledged by clearing bit 6 of SPU_CTRL
  before anything else. Without an active context the handler returns. With fewer
  than \<open>chunk_size\<close> bytes buffered (the \<open>int\<close> difference is negative) it calls the
  underrun callback, if there is one, sets bit 6 again and returns. Otherwise it
  takes one chunk from the ring buffer, calls the refill callback under the
  threshold test, and programs the SPU. A callback is the caller's code; the model
  records the call and takes the callback not to touch the stream itself.
  The modulo by a \<open>buffer_size\<close> of zero is the error \<open>Division_By_Zero\<close>.
\<close>

definition spu_irq_handler :: "system \<Rightarrow> error + (spu_event list \<times> system)" where
  "spu_irq_handler s =
     (let s1 = s\<lparr>SPU_CTRL := SPU_CTRL s AND NOT (push_bit 6 1)\<rparr> in
      case active_ctx s1 of
        None \<Rightarrow> Inr ([], s1)
      | Some p \<Rightarrow>
          let ctx = ctxs s1 p;
              len = length_bytes (buffer ctx) - chunk_size ctx
          in if sint len < 0 then
               Inr ((case underrun_callback (config ctx) of
                       None \<Rightarrow> [] | Some f \<Rightarrow> [Underrun_Callback f]),
                    s1\<lparr>SPU_CTRL := SPU_CTRL s1 OR push_bit 6 1\<rparr>)
             else if buffer_size (config ctx) = 0 then Inl Division_By_Zero
             else
               let ctx1 = ctx\<lparr>db_active := db_active ctx XOR 1,
                              buffering := True,
                              chunk_counter := chunk_counter ctx + 1\<rparr>;
                   tail0 = tail (buffer ctx1);
                   ptr = data (buffer ctx1) + tail (buffer ctx1);
                   ctx2 = ctx1\<lparr>buffer := (buffer ctx1)
                            \<lparr>tail := (tail0 + chunk_size ctx1) mod buffer_size (config ctx1),
                             length_bytes := len\<rparr>\<rparr>;
                   fire = (len \<le> refill_threshold (config ctx2) \<and> \<not> callback_issued ctx2);
                   refill = (if fire then
                               (case refill_callback (config ctx2) of
                                  None \<Rightarrow> [] | Some f \<Rightarrow> [Refill_Callback f])
                             else []);
                   ctx3 = (if fire then ctx2\<lparr>callback_issued := True\<rparr> else ctx2);
                   address = spu_address (config ctx3)
                             + (if db_active ctx3 \<noteq> 0 then chunk_size ctx3 else 0)
               in Inr (refill
                       @ [Reg_Write SPU_IRQ_ADDR (GetSPUAddr address)]
                       @ irq_channels 0 (channel_mask (config ctx3)) 0 address
                           (interleave (config ctx3))
                       @ [SpuSetTransferStartAddr address, SpuWrite ptr (chunk_size ctx3)],
                       s1\<lparr>ctxs := (ctxs s1)(p := ctx3)\<rparr>))"

subsection \<open>Public API\<close>

text \<open>
  \<open>Stream_Init\<close>: the context is zeroed and the configuration copied in; both
  assertions abort. \<open>mem\<close> is the pointer that \<open>malloc(config->buffer_size)\<close> returned.
  The critical section around the installation of the handlers has no effect on the
  state modelled here.
\<close>

definition zero_context :: Stream_Context where
  "zero_context =
     \<lparr>config = \<lparr>spu_address = 0, channel_mask = 0, interleave = 0, buffer_size = 0,
                refill_threshold = 0, sample_rate = 0, refill_callback = None,
                underrun_callback = None\<rparr>,
      buffer = \<lparr>data = 0, head = 0, tail = 0, length_bytes = 0\<rparr>,
      old_irq_handler = Null_Handler, old_dma_handler = Null_Handler,
      num_channels = 0, chunk_size = 0, db_active = 0, buffering = False,
      callback_issued = False, chunk_counter = 0\<rparr>"

definition Stream_Init :: "ctx_ptr \<Rightarrow> Stream_Config \<Rightarrow> u32 \<Rightarrow> system \<Rightarrow> error + system" where
  "Stream_Init p cfg mem s =
     (let ctx0 = zero_context\<lparr>config := cfg\<rparr>;
          ctx1 = ctx0\<lparr>num_channels := count_channels (channel_mask cfg) 0\<rparr>
      in if num_channels ctx1 = 0 then Inl Assertion_Failed
         else
           let ctx2 = ctx1\<lparr>chunk_size := interleave (config ctx1) * num_channels ctx1\<rparr>;
               ctx3 = ctx2\<lparr>buffer := (buffer ctx2)\<lparr>data := mem\<rparr>\<rparr>
           in if data (buffer ctx3) = 0 then Inl Assertion_Failed
              else
                let ctx4 = ctx3\<lparr>old_irq_handler := irq_vector s\<rparr>;
                    ctx5 = ctx4\<lparr>old_dma_handler := dma_vector s\<rparr>
                in Inr (s\<lparr>ctxs := (ctxs s)(p := ctx5),
                          irq_vector := Spu_Irq_Handler,
                          dma_vector := Spu_Dma_Handler\<rparr>))"

text \<open>
  \<open>Stream_Start\<close> returns a flag. An error of the handler it calls is passed on.
\<close>

definition Stream_Start ::
  "ctx_ptr \<Rightarrow> bool \<Rightarrow> system \<Rightarrow> error + (bool \<times> spu_event list \<times> system)" where
  "Stream_Start p resume s =
     (case active_ctx s of
        Some q \<Rightarrow> Inr (False, [], s)
      | None \<Rightarrow>
          let s1 = s\<lparr>active_ctx := Some p\<rparr>;
              primed = (if \<not> resume then
                          (case spu_irq_handler s1 of
                             Inl e \<Rightarrow> Inl e
                           | Inr (ev, s') \<Rightarrow> Inr (ev @ [SpuIsTransferCompleted_Wait], s'))
                        else Inr ([], s1))
          in (case primed of
               Inl e \<Rightarrow> Inl e
             | Inr (ev1, s2) \<Rightarrow>
                 let ctx = ctxs s2 p;
                     address = spu_address (config ctx)
                               + (if db_active ctx \<noteq> 0 then chunk_size ctx else 0);
                     ev2 = SpuSetKey 0 (channel_mask (config ctx))
                           # start_channels 0 (channel_mask (config ctx)) address
                               (sample_rate (config ctx)) (interleave (config ctx))
                 in (case spu_irq_handler s2 of
                       Inl e \<Rightarrow> Inl e
                     | Inr (ev3, s3) \<Rightarrow>
                         Inr (True,
                              ev1 @ ev2 @ ev3 @ [SpuSetKey 1 (channel_mask (config (ctxs s3 p)))],
                              s3))))"

definition Stream_Stop :: "system \<Rightarrow> bool \<times> spu_event list \<times> system" where
  "Stream_Stop s =
     (case active_ctx s of
        None \<Rightarrow> (False, [], s)
      | Some p \<Rightarrow>
          let ctx = ctxs s p
          in (True,
              SpuSetKey 0 (channel_mask (config ctx))
              # stop_channels 0 (channel_mask (config ctx))
              @ [SpuSetKey 1 (channel_mask (config ctx))],
              s\<lparr>active_ctx := None\<rparr>))"

text \<open>\<open>Stream_IsActive\<close> compares two pointers, either of which may be null.\<close>

definition Stream_IsActive :: "ctx_ptr option \<Rightarrow> system \<Rightarrow> bool" where
  "Stream_IsActive ctx s = (ctx = active_ctx s)"

definition Stream_GetRefillLength :: "Stream_Context \<Rightarrow> u32" where
  "Stream_GetRefillLength ctx =
     (let unbuf_total = buffer_size (config ctx) - length_bytes (buffer ctx)
      in if sint unbuf_total \<le> 0 then 0 else unbuf_total)"

text \<open>
  \<open>Stream_GetFeedPtr\<close> returns a length and stores a pointer through its second
  argument, but only on the path that returns a min: the second component is the
  value stored, \<open>None\<close> when nothing is stored. Both operands of the min are \<open>int\<close>,
  so the comparison is signed.
\<close>

definition Stream_GetFeedPtr :: "Stream_Context \<Rightarrow> u32 \<times> u32 option" where
  "Stream_GetFeedPtr ctx =
     (let head0 = head (buffer ctx);
          unbuf_total = buffer_size (config ctx) - length_bytes (buffer ctx);
          unbuf_head = buffer_size (config ctx) - head0
      in if sint unbuf_total \<le> 0 then (0, None)
         else (if sint unbuf_total < sint unbuf_head then unbuf_total else unbuf_head,
               Some (data (buffer ctx) + head0)))"

text \<open>
  \<open>Stream_Feed\<close>. In \<open>_min(length, unbuf_total)\<close> the first operand is a \<open>size_t\<close> and
  the second an \<open>int\<close>, so the comparison and the result are unsigned.
\<close>

definition Stream_Feed :: "ctx_ptr \<Rightarrow> u32 \<Rightarrow> system \<Rightarrow> error + system" where
  "Stream_Feed p n s =
     (let ctx = ctxs s p;
          unbuf_total = buffer_size (config ctx) - length_bytes (buffer ctx);
          len = (if n < unbuf_total then n else unbuf_total);
          new_length = length_bytes (buffer ctx) + len
      in if buffer_size (config ctx) = 0 then Inl Division_By_Zero
         else
           let ctx1 = ctx\<lparr>buffer := (buffer ctx)
                        \<lparr>head := (head (buffer ctx) + len) mod buffer_size (config ctx),
                         length_bytes := new_length\<rparr>\<rparr>;
               ctx2 = (if new_length > refill_threshold (config ctx1)
                       then ctx1\<lparr>callback_issued := False\<rparr> else ctx1)
           in Inr (s\<lparr>ctxs := (ctxs s)(p := ctx2)\<rparr>))"

subsection \<open>Runs of feed and consumption operations\<close>

datatype operation = Feed u32 | Consume

fun step :: "ctx_ptr \<Rightarrow> operation \<Rightarrow> system \<Rightarrow> error + (spu_event list \<times> system)" where
  "step p (Feed n) s = (case Stream_Feed p n s of Inl e \<Rightarrow> Inl e | Inr s' \<Rightarrow> Inr ([], s'))"
| "step p Consume s = spu_irq_handler s"

text \<open>
  A run returns, for every operation in turn, the events of that operation and the
  state after it. It stops at the first error.
\<close>

fun run :: "ctx_ptr \<Rightarrow> operation list \<Rightarrow> system \<Rightarrow> error + (spu_event list \<times> system) list" where
  "run p [] s = Inr []"
| "run p (x # xs) s =
     (case step p x s of
        Inl e \<Rightarrow> Inl e
      | Inr (ev, s') \<Rightarrow>
          (case run p xs s' of Inl e \<Rightarrow> Inl e | Inr r \<Rightarrow> Inr ((ev, s') # r)))"

text \<open>\<open>consume k\<close>: the interrupt handler invoked \<open>k\<close> times in a row.\<close>

fun consume :: "nat \<Rightarrow> system \<Rightarrow> error + (spu_event list \<times> system)" where
  "consume 0 s = Inr ([], s)"
| "consume (Suc k) s =
     (case spu_irq_handler s of
        Inl e \<Rightarrow> Inl e
      | Inr (ev, s') \<Rightarrow>
          (case consume k s' of Inl e \<Rightarrow> Inl e | Inr (ev', s'') \<Rightarrow> Inr (ev @ ev', s'')))"

subsection \<open>Properties of a context\<close>

text \<open>A size that is not negative when the code casts it to \<open>int\<close>.\<close>

definition fits_int :: "u32 \<Rightarrow> bool" where
  "fits_int w \<longleftrightarrow> w < 0x80000000"

text \<open>The ring-buffer invariant of the spec, with the sum taken in the naturals.\<close>

definition ring_inv :: "Stream_Context \<Rightarrow> bool" where
  "ring_inv ctx \<longleftrightarrow>
     0 \<le> length_bytes (buffer ctx) \<and>
     length_bytes (buffer ctx) \<le> buffer_size (config ctx) \<and>
     head (buffer ctx) < buffer_size (config ctx) \<and>
     tail (buffer ctx) < buffer_size (config ctx) \<and>
     (unat (tail (buffer ctx)) + unat (length_bytes (buffer ctx)))
       mod unat (buffer_size (config ctx)) = unat (head (buffer ctx))"

text \<open>More bytes are buffered than the refill threshold.\<close>

definition above_threshold :: "Stream_Context \<Rightarrow> bool" where
  "above_threshold ctx \<longleftrightarrow> refill_threshold (config ctx) < length_bytes (buffer ctx)"

text \<open>
  The refill flag is clear whenever more bytes are buffered than the threshold: the
  invariant that lets every dip call the callback.
\<close>

definition flag_inv :: "Stream_Context \<Rightarrow> bool" where
  "flag_inv ctx \<longleftrightarrow> (above_threshold ctx \<longrightarrow> \<not> callback_issued ctx)"

text \<open>
  An active stream in good order: the ring invariant, sizes that fit an \<open>int\<close>, and the
  flag invariant.
\<close>

definition stream_ok :: "ctx_ptr \<Rightarrow> system \<Rightarrow> bool" where
  "stream_ok p s \<longleftrightarrow>
     active_ctx s = Some p \<and> ring_inv (ctxs s p) \<and>
     fits_int (buffer_size (config (ctxs s p))) \<and> fits_int (chunk_size (ctxs s p)) \<and>
     flag_inv (ctxs s p)"

text \<open>The state in which operation \<open>i\<close> of a run starts.\<close>

definition state_before :: "system \<Rightarrow> (spu_event list \<times> system) list \<Rightarrow> nat \<Rightarrow> system" where
  "state_before s r i = (if i = 0 then s else snd (r ! (i - 1)))"

text \<open>The callbacks called by a list of events, in order.\<close>

fun refill_calls :: "spu_event list \<Rightarrow> callback list" where
  "refill_calls [] = []"
| "refill_calls (Refill_Callback f # ev) = f # refill_calls ev"
| "refill_calls (e # ev) = refill_calls ev"

fun underrun_calls :: "spu_event list \<Rightarrow> callback list" where
  "underrun_calls [] = []"
| "underrun_calls (Underrun_Callback f # ev) = f # underrun_calls ev"
| "underrun_calls (e # ev) = underrun_calls ev"

subsection \<open>Example states\<close>

text \<open>
  Two channels of 512 bytes each, so a chunk of 1024 bytes, as Stream_Init computes
  it; the buffer size and the threshold are arguments.
\<close>

definition example_config :: "u32 \<Rightarrow> u32 \<Rightarrow> Stream_Config" where
  "example_config capacity threshold =
     \<lparr>spu_address = 0x1010, channel_mask = 3, interleave = 512, buffer_size = capacity,
      refill_threshold = threshold, sample_rate = 44100, refill_callback = Some 1,
      underrun_callback = Some 2\<rparr>"

definition example_context :: "Stream_Config \<Rightarrow> u32 \<Rightarrow> u32 \<Rightarrow> u32 \<Rightarrow> Stream_Context" where
  "example_context cfg h t l =
     \<lparr>config = cfg,
      buffer = \<lparr>data = 0x80100000, head = h, tail = t, length_bytes = l\<rparr>,
      old_irq_handler = Null_Handler, old_dma_handler = Null_Handler,
      num_channels = 2, chunk_size = 1024, db_active = 0, buffering = False,
      callback_issued = False, chunk_counter = 0\<rparr>"

definition example_system :: "Stream_Context \<Rightarrow> ctx_ptr option \<Rightarrow> system" where
  "example_system ctx a =
     \<lparr>ctxs = (\<lambda>p. ctx), active_ctx = a, SPU_CTRL = 0xC040,
      irq_vector = Spu_Irq_Handler, dma_vector = Spu_Dma_Handler\<rparr>"

text \<open>
  An underrun after the spec's scenario (capacity 2048, 256 bytes buffered, less than
  a chunk) and a full buffer of 4096 bytes, each bound as the active stream.
\<close>

definition underrun_state :: system where
  "underrun_state =
     example_system (example_context (example_config 2048 1024) 256 0 256) (Some 0)"

definition consume_state :: system where
  "consume_state =
     example_system (example_context (example_config 4096 2048) 0 0 4096) (Some 0)"

text \<open>
  A half-full buffer whose data wraps past the end of the array, a full buffer, and an
  empty buffer whose head and tail stand at offset 3072.
\<close>

definition wrapped_state :: system where
  "wrapped_state =
     example_system (example_context (example_config 4096 2048) 1024 3072 2048) (Some 0)"

definition full_context :: Stream_Context where
  "full_context = example_context (example_config 4096 2048) 0 0 4096"

definition empty_state :: system where
  "empty_state =
     example_system (example_context (example_config 4096 2048) 3072 3072 0) (Some 0)"

text \<open>
  One chunk above the threshold: the next consumption drops the length to the
  threshold of 2048 bytes.
\<close>

definition dip_state :: system where
  "dip_state =
     example_system (example_context (example_config 4096 2048) 0 1024 3072) (Some 0)"

section \<open>Lemmas\<close>

subsection \<open>Signed reading of a difference\<close>

lemma odd_div_top:
  fixes x :: nat
  assumes "x < 2 * k" "0 < k"
  shows "odd (x div k) \<longleftrightarrow> k \<le> x"
proof (cases "x < k")
  case True
  then show ?thesis by simp
next
  case False
  then have "x div k = 1"
    using assms by (simp add: div_nat_eqI)
  with False show ?thesis by simp
qed

lemma sint_neg_iff:
  fixes w :: u32
  shows "sint w < 0 \<longleftrightarrow> 0x80000000 \<le> w"
proof -
  have "unat w < 2 ^ LENGTH(32)"
    by (rule unsigned_less)
  then have lt: "unat w < 2 * 2147483648"
    by simp
  have "sint w < 0 \<longleftrightarrow> bit w 31"
    using bit_last_iff [of w] by simp
  also have "\<dots> \<longleftrightarrow> bit (unat w) 31"
    by (simp add: bit_unsigned_iff)
  also have "\<dots> \<longleftrightarrow> odd (unat w div 2147483648)"
    by (simp add: bit_iff_odd)
  also have "\<dots> \<longleftrightarrow> 2147483648 \<le> unat w"
    using lt by (rule odd_div_top) simp
  also have "\<dots> \<longleftrightarrow> 0x80000000 \<le> w"
    by (simp add: word_le_nat_alt)
  finally show ?thesis .
qed

text \<open>
  For two sizes that fit an \<open>int\<close>, the sign of the \<open>int\<close> difference decides the
  unsigned comparison.
\<close>

lemma sint_sub_neg_iff:
  fixes a b :: u32
  assumes "fits_int a" "fits_int b"
  shows "sint (a - b) < 0 \<longleftrightarrow> a < b"
proof -
  have a: "unat a < 2147483648" and b: "unat b < 2147483648"
    using assms by (simp_all add: fits_int_def word_less_nat_alt)
  have "unat (a - b) =
          (if unat b \<le> unat a then unat a - unat b else unat a + 4294967296 - unat b)"
    using unat_sub_if_size [of a b] by (simp add: word_size)
  then have "2147483648 \<le> unat (a - b) \<longleftrightarrow> unat a < unat b"
    using a b by (simp split: if_splits)
  then show ?thesis
    by (simp add: sint_neg_iff word_le_nat_alt word_less_nat_alt)
qed

lemma sint_fits:
  fixes w :: u32
  assumes "fits_int w"
  shows "sint w = uint w"
proof -
  have "uint w < uint (0x80000000 :: u32)"
    using assms unfolding fits_int_def word_less_alt .
  then have "uint w < 2 ^ 31"
    by simp
  moreover have "- (2 ^ 31) \<le> uint w"
  proof -
    have "- (2 ^ 31) \<le> (0 :: int)"
      by simp
    also have "0 \<le> uint w"
      by simp
    finally show ?thesis .
  qed
  ultimately have "signed_take_bit 31 (uint w) = uint w"
    by (intro signed_take_bit_int_eq_self)
  then show ?thesis
    by (simp add: sint_uint)
qed

lemma xor_one_neq:
  fixes x :: u32
  shows "x XOR 1 \<noteq> x"
proof
  assume "x XOR 1 = x"
  then have "x XOR (x XOR 1) = x XOR x"
    by simp
  then show False
    by (simp add: xor.assoc [symmetric])
qed

lemma fits_int_diff:
  fixes a b :: u32
  assumes "fits_int a" "b \<le> a"
  shows "fits_int (a - b)"
proof -
  have "unat (a - b) = unat a - unat b"
    using assms(2) by (rule unat_sub)
  then show ?thesis
    using assms(1) by (simp add: fits_int_def word_less_nat_alt)
qed

subsection \<open>The three paths of the interrupt handler\<close>

lemma refill_calls_append: "refill_calls (xs @ ys) = refill_calls xs @ refill_calls ys"
  by (induction xs rule: refill_calls.induct) simp_all

lemma underrun_calls_append:
  "underrun_calls (xs @ ys) = underrun_calls xs @ underrun_calls ys"
  by (induction xs rule: underrun_calls.induct) simp_all

lemma refill_calls_irq_channels: "refill_calls (irq_channels ch msk offset address il) = []"
  by (induction ch msk offset address il rule: irq_channels.induct)
     (subst irq_channels.simps, simp)

lemma underrun_calls_irq_channels:
  "underrun_calls (irq_channels ch msk offset address il) = []"
  by (induction ch msk offset address il rule: irq_channels.induct)
     (subst irq_channels.simps, simp)

lemma irq_no_ctx:
  assumes "active_ctx s = None"
  shows "spu_irq_handler s = Inr ([], s\<lparr>SPU_CTRL := SPU_CTRL s AND NOT (push_bit 6 1)\<rparr>)"
  using assms by (simp add: spu_irq_handler_def)

lemma irq_underrun:
  assumes "active_ctx s = Some p"
    and "sint (length_bytes (buffer (ctxs s p)) - chunk_size (ctxs s p)) < 0"
  shows "spu_irq_handler s =
           Inr ((case underrun_callback (config (ctxs s p)) of
                   None \<Rightarrow> [] | Some f \<Rightarrow> [Underrun_Callback f]),
                s\<lparr>SPU_CTRL := (SPU_CTRL s AND NOT (push_bit 6 1)) OR push_bit 6 1\<rparr>)"
  using assms by (simp add: spu_irq_handler_def Let_def)

lemma irq_consume:
  assumes "active_ctx s = Some p"
    and "\<not> sint (length_bytes (buffer (ctxs s p)) - chunk_size (ctxs s p)) < 0"
    and "buffer_size (config (ctxs s p)) \<noteq> 0"
  shows "\<exists>ev s'. spu_irq_handler s = Inr (ev, s') \<and>
           active_ctx s' = Some p \<and>
           (\<forall>q. q \<noteq> p \<longrightarrow> ctxs s' q = ctxs s q) \<and>
           config (ctxs s' p) = config (ctxs s p) \<and>
           chunk_size (ctxs s' p) = chunk_size (ctxs s p) \<and>
           data (buffer (ctxs s' p)) = data (buffer (ctxs s p)) \<and>
           head (buffer (ctxs s' p)) = head (buffer (ctxs s p)) \<and>
           tail (buffer (ctxs s' p)) =
             (tail (buffer (ctxs s p)) + chunk_size (ctxs s p))
               mod buffer_size (config (ctxs s p)) \<and>
           length_bytes (buffer (ctxs s' p)) =
             length_bytes (buffer (ctxs s p)) - chunk_size (ctxs s p) \<and>
           db_active (ctxs s' p) = db_active (ctxs s p) XOR 1 \<and>
           chunk_counter (ctxs s' p) = chunk_counter (ctxs s p) + 1 \<and>
           (callback_issued (ctxs s' p) \<longleftrightarrow>
              callback_issued (ctxs s p) \<or>
              length_bytes (buffer (ctxs s p)) - chunk_size (ctxs s p)
                \<le> refill_threshold (config (ctxs s p))) \<and>
           refill_calls ev =
             (if length_bytes (buffer (ctxs s p)) - chunk_size (ctxs s p)
                   \<le> refill_threshold (config (ctxs s p)) \<and> \<not> callback_issued (ctxs s p)
              then (case refill_callback (config (ctxs s p)) of None \<Rightarrow> [] | Some f \<Rightarrow> [f])
              else []) \<and>
           underrun_calls ev = []"
  using assms
  by (auto simp: spu_irq_handler_def Let_def refill_calls_append underrun_calls_append
      refill_calls_irq_channels underrun_calls_irq_channels split: option.splits)

subsection \<open>Ring-buffer arithmetic\<close>

lemma feed_fields:
  assumes "buffer_size (config (ctxs s p)) \<noteq> 0"
  shows "\<exists>s'. Stream_Feed p n s = Inr s' \<and>
           active_ctx s' = active_ctx s \<and>
           (\<forall>q. q \<noteq> p \<longrightarrow> ctxs s' q = ctxs s q) \<and>
           config (ctxs s' p) = config (ctxs s p) \<and>
           chunk_size (ctxs s' p) = chunk_size (ctxs s p) \<and>
           chunk_counter (ctxs s' p) = chunk_counter (ctxs s p) \<and>
           db_active (ctxs s' p) = db_active (ctxs s p) \<and>
           data (buffer (ctxs s' p)) = data (buffer (ctxs s p)) \<and>
           tail (buffer (ctxs s' p)) = tail (buffer (ctxs s p)) \<and>
           length_bytes (buffer (ctxs s' p)) =
             length_bytes (buffer (ctxs s p))
             + min n (buffer_size (config (ctxs s p)) - length_bytes (buffer (ctxs s p))) \<and>
           head (buffer (ctxs s' p)) =
             (head (buffer (ctxs s p))
              + min n (buffer_size (config (ctxs s p)) - length_bytes (buffer (ctxs s p))))
               mod buffer_size (config (ctxs s p)) \<and>
           (callback_issued (ctxs s' p) \<longleftrightarrow>
              callback_issued (ctxs s p) \<and>
              \<not> refill_threshold (config (ctxs s p)) < length_bytes (buffer (ctxs s' p)))"
  using assms by (auto simp: Stream_Feed_def Let_def min_def)

lemma ring_feed_nat:
  fixes t l h c m :: nat
  assumes "(t + l) mod c = h"
  shows "(t + (l + m)) mod c = (h + m) mod c"
proof -
  have "(t + (l + m)) mod c = ((t + l) mod c + m) mod c"
    by (simp add: mod_add_left_eq add.assoc)
  then show ?thesis
    using assms by simp
qed

lemma ring_consume_nat:
  fixes t l h c k :: nat
  assumes "(t + l) mod c = h" "k \<le> l"
  shows "((t + k) mod c + (l - k)) mod c = h"
proof -
  have "((t + k) mod c + (l - k)) mod c = (t + k + (l - k)) mod c"
    by (simp add: mod_add_left_eq)
  also have "t + k + (l - k) = t + l"
    using assms(2) by simp
  finally show ?thesis
    using assms(1) by simp
qed

lemma unat_min_word:
  fixes a b :: u32
  shows "unat (min a b) = min (unat a) (unat b)"
  by (simp add: min_def word_le_nat_alt)

lemma unat_add_small:
  fixes a b :: u32
  assumes "unat a + unat b < 4294967296"
  shows "unat (a + b) = unat a + unat b"
proof -
  have "unat a + unat b < 2 ^ LENGTH(32)"
    using assms by simp
  then show ?thesis
    by (rule unat_add_lem [THEN iffD1])
qed

lemma feed_nat:
  assumes inv: "ring_inv (ctxs s p)"
    and fit: "fits_int (buffer_size (config (ctxs s p)))"
  shows "\<exists>s'. Stream_Feed p n s = Inr s' \<and>
           active_ctx s' = active_ctx s \<and>
           config (ctxs s' p) = config (ctxs s p) \<and>
           chunk_size (ctxs s' p) = chunk_size (ctxs s p) \<and>
           chunk_counter (ctxs s' p) = chunk_counter (ctxs s p) \<and>
           tail (buffer (ctxs s' p)) = tail (buffer (ctxs s p)) \<and>
           unat (length_bytes (buffer (ctxs s' p))) =
             unat (length_bytes (buffer (ctxs s p)))
             + min (unat n) (unat (buffer_size (config (ctxs s p)))
                             - unat (length_bytes (buffer (ctxs s p)))) \<and>
           unat (head (buffer (ctxs s' p))) =
             (unat (head (buffer (ctxs s p)))
              + min (unat n) (unat (buffer_size (config (ctxs s p)))
                              - unat (length_bytes (buffer (ctxs s p)))))
               mod unat (buffer_size (config (ctxs s p)))"
proof -
  define c where "c = buffer_size (config (ctxs s p))"
  define l where "l = length_bytes (buffer (ctxs s p))"
  define h where "h = head (buffer (ctxs s p))"
  define m where "m = min n (c - l)"
  have le: "l \<le> c" and hc: "h < c"
    using inv by (simp_all add: ring_inv_def c_def l_def h_def)
  have c31: "unat c < 2147483648"
    using fit by (simp add: fits_int_def word_less_nat_alt c_def)
  have nz: "c \<noteq> 0"
    using hc by auto
  have free: "unat (c - l) = unat c - unat l"
    using le by (rule unat_sub)
  have m: "unat m = min (unat n) (unat c - unat l)"
    by (simp add: m_def unat_min_word free)
  have lc: "unat l \<le> unat c" and hc': "unat h < unat c"
    using le hc by (simp_all add: word_le_nat_alt word_less_nat_alt)
  have lm: "unat (l + m) = unat l + unat m"
    using m lc c31 by (intro unat_add_small) simp
  have hm: "unat (h + m) = unat h + unat m"
    using m hc' c31 by (intro unat_add_small) simp
  from feed_fields [of s p n] nz obtain s'
    where "Stream_Feed p n s = Inr s'"
      and "active_ctx s' = active_ctx s"
      and "config (ctxs s' p) = config (ctxs s p)"
      and "chunk_size (ctxs s' p) = chunk_size (ctxs s p)"
      and "chunk_counter (ctxs s' p) = chunk_counter (ctxs s p)"
      and "tail (buffer (ctxs s' p)) = tail (buffer (ctxs s p))"
      and "length_bytes (buffer (ctxs s' p)) = l + m"
      and "head (buffer (ctxs s' p)) = (h + m) mod c"
    unfolding c_def l_def h_def m_def by blast
  then show ?thesis
    using lm hm m unfolding c_def l_def h_def by (simp add: unat_mod)
qed

lemma consume_nat:
  assumes act: "active_ctx s = Some p"
    and inv: "ring_inv (ctxs s p)"
    and fit: "fits_int (buffer_size (config (ctxs s p)))"
    and enough: "chunk_size (ctxs s p) \<le> length_bytes (buffer (ctxs s p))"
  shows "\<exists>ev s'. spu_irq_handler s = Inr (ev, s') \<and>
           active_ctx s' = Some p \<and>
           config (ctxs s' p) = config (ctxs s p) \<and>
           chunk_size (ctxs s' p) = chunk_size (ctxs s p) \<and>
           chunk_counter (ctxs s' p) = chunk_counter (ctxs s p) + 1 \<and>
           underrun_calls ev = [] \<and>
           head (buffer (ctxs s' p)) = head (buffer (ctxs s p)) \<and>
           unat (length_bytes (buffer (ctxs s' p))) =
             unat (length_bytes (buffer (ctxs s p))) - unat (chunk_size (ctxs s p)) \<and>
           unat (tail (buffer (ctxs s' p))) =
             (unat (tail (buffer (ctxs s p))) + unat (chunk_size (ctxs s p)))
               mod unat (buffer_size (config (ctxs s p)))"
proof -
  define c where "c = buffer_size (config (ctxs s p))"
  define l where "l = length_bytes (buffer (ctxs s p))"
  define t where "t = tail (buffer (ctxs s p))"
  define k where "k = chunk_size (ctxs s p)"
  have le: "l \<le> c" and tc: "t < c"
    using inv by (simp_all add: ring_inv_def c_def l_def t_def)
  have kl: "k \<le> l"
    using enough by (simp add: k_def l_def)
  have c31: "unat c < 2147483648"
    using fit by (simp add: fits_int_def word_less_nat_alt c_def)
  have nz: "c \<noteq> 0"
    using tc by auto
  have nat: "unat l \<le> unat c" "unat t < unat c" "unat k \<le> unat l"
    using le tc kl by (simp_all add: word_le_nat_alt word_less_nat_alt)
  have fl: "fits_int l" and fk: "fits_int k"
    using nat c31 by (simp_all add: fits_int_def word_less_nat_alt)
  have "\<not> l < k"
    using kl by simp
  then have go: "\<not> sint (l - k) < 0"
    unfolding sint_sub_neg_iff [OF fl fk] .
  have sub: "unat (l - k) = unat l - unat k"
    using kl by (rule unat_sub)
  have tk: "unat (t + k) = unat t + unat k"
    using nat c31 by (intro unat_add_small) simp
  from irq_consume [OF act] go nz obtain ev s'
    where "spu_irq_handler s = Inr (ev, s')"
      and "active_ctx s' = Some p"
      and "config (ctxs s' p) = config (ctxs s p)"
      and "chunk_size (ctxs s' p) = chunk_size (ctxs s p)"
      and "chunk_counter (ctxs s' p) = chunk_counter (ctxs s p) + 1"
      and "underrun_calls ev = []"
      and "head (buffer (ctxs s' p)) = head (buffer (ctxs s p))"
      and "length_bytes (buffer (ctxs s' p)) = l - k"
      and "tail (buffer (ctxs s' p)) = (t + k) mod c"
    unfolding c_def l_def t_def k_def by blast
  then show ?thesis
    using sub tk unfolding c_def l_def t_def k_def by (simp add: unat_mod)
qed

lemma init_fields:
  assumes "count_channels (channel_mask cfg) 0 \<noteq> 0" "mem \<noteq> 0"
  shows "\<exists>s'. Stream_Init p cfg mem s = Inr s' \<and>
           active_ctx s' = active_ctx s \<and>
           config (ctxs s' p) = cfg \<and>
           chunk_size (ctxs s' p) = interleave cfg * count_channels (channel_mask cfg) 0 \<and>
           buffer (ctxs s' p) = \<lparr>data = mem, head = 0, tail = 0, length_bytes = 0\<rparr> \<and>
           db_active (ctxs s' p) = 0 \<and>
           \<not> callback_issued (ctxs s' p) \<and>
           chunk_counter (ctxs s' p) = 0"
  using assms by (simp add: Stream_Init_def Let_def zero_context_def)

lemma ring_inv_feed:
  assumes inv: "ring_inv (ctxs s p)"
    and fit: "fits_int (buffer_size (config (ctxs s p)))"
  shows "\<exists>s'. Stream_Feed p n s = Inr s' \<and> ring_inv (ctxs s' p)"
proof -
  from feed_nat [OF inv fit, of n] obtain s'
    where feed: "Stream_Feed p n s = Inr s'"
      and cfg: "config (ctxs s' p) = config (ctxs s p)"
      and tl: "tail (buffer (ctxs s' p)) = tail (buffer (ctxs s p))"
      and len: "unat (length_bytes (buffer (ctxs s' p))) =
                  unat (length_bytes (buffer (ctxs s p)))
                  + min (unat n) (unat (buffer_size (config (ctxs s p)))
                                  - unat (length_bytes (buffer (ctxs s p))))"
      and hd: "unat (head (buffer (ctxs s' p))) =
                 (unat (head (buffer (ctxs s p)))
                  + min (unat n) (unat (buffer_size (config (ctxs s p)))
                                  - unat (length_bytes (buffer (ctxs s p)))))
                   mod unat (buffer_size (config (ctxs s p)))"
    by blast
  have old: "unat (length_bytes (buffer (ctxs s p))) \<le> unat (buffer_size (config (ctxs s p)))"
    "unat (tail (buffer (ctxs s p))) < unat (buffer_size (config (ctxs s p)))"
    "(unat (tail (buffer (ctxs s p))) + unat (length_bytes (buffer (ctxs s p))))
       mod unat (buffer_size (config (ctxs s p))) = unat (head (buffer (ctxs s p)))"
    using inv by (simp_all add: ring_inv_def word_le_nat_alt word_less_nat_alt)
  have "unat (length_bytes (buffer (ctxs s' p))) \<le> unat (buffer_size (config (ctxs s p)))"
    using len old(1) by simp
  moreover have "unat (head (buffer (ctxs s' p))) < unat (buffer_size (config (ctxs s p)))"
    using hd old(2) by simp
  moreover have "(unat (tail (buffer (ctxs s p))) + unat (length_bytes (buffer (ctxs s' p))))
                   mod unat (buffer_size (config (ctxs s p))) = unat (head (buffer (ctxs s' p)))"
    unfolding len hd by (rule ring_feed_nat) (rule old(3))
  ultimately have "ring_inv (ctxs s' p)"
    using inv cfg tl by (simp add: ring_inv_def word_le_nat_alt word_less_nat_alt)
  with feed show ?thesis
    by blast
qed

lemma ring_inv_consume:
  assumes act: "active_ctx s = Some p"
    and inv: "ring_inv (ctxs s p)"
    and fit: "fits_int (buffer_size (config (ctxs s p)))"
    and enough: "chunk_size (ctxs s p) \<le> length_bytes (buffer (ctxs s p))"
  shows "\<exists>ev s'. spu_irq_handler s = Inr (ev, s') \<and> ring_inv (ctxs s' p)"
proof -
  from consume_nat [OF act inv fit enough] obtain ev s'
    where irq: "spu_irq_handler s = Inr (ev, s')"
      and cfg: "config (ctxs s' p) = config (ctxs s p)"
      and hd: "head (buffer (ctxs s' p)) = head (buffer (ctxs s p))"
      and len: "unat (length_bytes (buffer (ctxs s' p))) =
                  unat (length_bytes (buffer (ctxs s p))) - unat (chunk_size (ctxs s p))"
      and tl: "unat (tail (buffer (ctxs s' p))) =
                 (unat (tail (buffer (ctxs s p))) + unat (chunk_size (ctxs s p)))
                   mod unat (buffer_size (config (ctxs s p)))"
    by blast
  have old: "unat (length_bytes (buffer (ctxs s p))) \<le> unat (buffer_size (config (ctxs s p)))"
    "unat (tail (buffer (ctxs s p))) < unat (buffer_size (config (ctxs s p)))"
    "(unat (tail (buffer (ctxs s p))) + unat (length_bytes (buffer (ctxs s p))))
       mod unat (buffer_size (config (ctxs s p))) = unat (head (buffer (ctxs s p)))"
    using inv by (simp_all add: ring_inv_def word_le_nat_alt word_less_nat_alt)
  have k: "unat (chunk_size (ctxs s p)) \<le> unat (length_bytes (buffer (ctxs s p)))"
    using enough by (simp add: word_le_nat_alt)
  have "unat (length_bytes (buffer (ctxs s' p))) \<le> unat (buffer_size (config (ctxs s p)))"
    using len old(1) by simp
  moreover have "unat (tail (buffer (ctxs s' p))) < unat (buffer_size (config (ctxs s p)))"
    using tl old(2) by simp
  moreover have "(unat (tail (buffer (ctxs s' p))) + unat (length_bytes (buffer (ctxs s' p))))
                   mod unat (buffer_size (config (ctxs s p))) = unat (head (buffer (ctxs s p)))"
    unfolding len tl by (rule ring_consume_nat) (rule old(3), rule k)
  ultimately have "ring_inv (ctxs s' p)"
    using inv cfg hd by (simp add: ring_inv_def word_le_nat_alt word_less_nat_alt)
  with irq show ?thesis
    by blast
qed

lemma consume_all:
  assumes "active_ctx s = Some p"
    and "ring_inv (ctxs s p)"
    and "fits_int (buffer_size (config (ctxs s p)))"
    and "unat (length_bytes (buffer (ctxs s p))) = k * unat (chunk_size (ctxs s p))"
  shows "\<exists>ev s'. consume k s = Inr (ev, s') \<and>
           active_ctx s' = Some p \<and>
           ring_inv (ctxs s' p) \<and>
           length_bytes (buffer (ctxs s' p)) = 0 \<and>
           head (buffer (ctxs s' p)) = head (buffer (ctxs s p)) \<and>
           chunk_counter (ctxs s' p) = chunk_counter (ctxs s p) + of_nat k \<and>
           underrun_calls ev = []"
  using assms
proof (induction k arbitrary: s)
  case 0
  then have "length_bytes (buffer (ctxs s p)) = 0"
    by (simp add: unat_eq_0)
  with 0 show ?case
    by simp
next
  case (Suc k)
  have "unat (chunk_size (ctxs s p)) \<le> unat (length_bytes (buffer (ctxs s p)))"
    using Suc.prems(4) by simp
  then have enough: "chunk_size (ctxs s p) \<le> length_bytes (buffer (ctxs s p))"
    by (simp add: word_le_nat_alt)
  from consume_nat [OF Suc.prems(1-3) enough] obtain ev s1
    where irq: "spu_irq_handler s = Inr (ev, s1)"
      and act: "active_ctx s1 = Some p"
      and cfg: "config (ctxs s1 p) = config (ctxs s p)"
      and chk: "chunk_size (ctxs s1 p) = chunk_size (ctxs s p)"
      and cnt: "chunk_counter (ctxs s1 p) = chunk_counter (ctxs s p) + 1"
      and und: "underrun_calls ev = []"
      and hd: "head (buffer (ctxs s1 p)) = head (buffer (ctxs s p))"
      and len: "unat (length_bytes (buffer (ctxs s1 p))) =
                  unat (length_bytes (buffer (ctxs s p))) - unat (chunk_size (ctxs s p))"
    by blast
  from ring_inv_consume [OF Suc.prems(1-3) enough] irq have inv: "ring_inv (ctxs s1 p)"
    by auto
  have fit: "fits_int (buffer_size (config (ctxs s1 p)))"
    using cfg Suc.prems(3) by simp
  have rest: "unat (length_bytes (buffer (ctxs s1 p))) = k * unat (chunk_size (ctxs s1 p))"
    using len chk Suc.prems(4) by simp
  from Suc.IH [OF act inv fit rest] obtain ev' s'
    where "consume k s1 = Inr (ev', s')"
      and "active_ctx s' = Some p"
      and "ring_inv (ctxs s' p)"
      and "length_bytes (buffer (ctxs s' p)) = 0"
      and "head (buffer (ctxs s' p)) = head (buffer (ctxs s1 p))"
      and "chunk_counter (ctxs s' p) = chunk_counter (ctxs s1 p) + of_nat k"
      and "underrun_calls ev' = []"
    by blast
  then show ?case
    using irq cnt und hd by (simp add: underrun_calls_append)
qed

lemma consume_Suc_end:
  assumes "consume i s = Inr (ev, s')"
    and "spu_irq_handler s' = Inr (ev', s'')"
  shows "consume (Suc i) s = Inr (ev @ ev', s'')"
  using assms
proof (induction i arbitrary: s ev)
  case 0
  then show ?case
    by simp
next
  case (Suc i)
  from Suc.prems(1) obtain e1 s1 e2
    where first: "spu_irq_handler s = Inr (e1, s1)"
      and rest: "consume i s1 = Inr (e2, s')"
      and ev: "ev = e1 @ e2"
    by (auto split: sum.splits)
  from Suc.IH [OF rest Suc.prems(2)] have "consume (Suc i) s1 = Inr (e2 @ ev', s'')" .
  then show ?case
    using first ev by (subst consume.simps) (simp del: consume.simps)
qed

lemma consume_prefix:
  assumes "active_ctx s = Some p"
    and "ring_inv (ctxs s p)"
    and "fits_int (buffer_size (config (ctxs s p)))"
    and "unat (length_bytes (buffer (ctxs s p))) = k * unat (chunk_size (ctxs s p))"
    and "i \<le> k"
  shows "\<exists>ev s'. consume i s = Inr (ev, s') \<and>
           active_ctx s' = Some p \<and>
           ring_inv (ctxs s' p) \<and>
           config (ctxs s' p) = config (ctxs s p) \<and>
           chunk_size (ctxs s' p) = chunk_size (ctxs s p) \<and>
           unat (length_bytes (buffer (ctxs s' p))) = (k - i) * unat (chunk_size (ctxs s p)) \<and>
           unat (tail (buffer (ctxs s' p))) =
             (unat (tail (buffer (ctxs s p))) + i * unat (chunk_size (ctxs s p)))
               mod unat (buffer_size (config (ctxs s p))) \<and>
           head (buffer (ctxs s' p)) = head (buffer (ctxs s p)) \<and>
           chunk_counter (ctxs s' p) = chunk_counter (ctxs s p) + of_nat i"
  using assms
proof (induction i arbitrary: s k)
  case 0
  have "unat (tail (buffer (ctxs s p))) < unat (buffer_size (config (ctxs s p)))"
    using "0.prems"(2) by (simp add: ring_inv_def word_less_nat_alt)
  with 0 show ?case
    by simp
next
  case (Suc i)
  from Suc.prems(5) obtain k' where k: "k = Suc k'" and ik: "i \<le> k'"
    by (cases k) simp_all
  have "unat (chunk_size (ctxs s p)) \<le> unat (length_bytes (buffer (ctxs s p)))"
    using Suc.prems(4) k by simp
  then have enough: "chunk_size (ctxs s p) \<le> length_bytes (buffer (ctxs s p))"
    by (simp add: word_le_nat_alt)
  from consume_nat [OF Suc.prems(1-3) enough] obtain ev s1
    where irq: "spu_irq_handler s = Inr (ev, s1)"
      and act: "active_ctx s1 = Some p"
      and cfg: "config (ctxs s1 p) = config (ctxs s p)"
      and chk: "chunk_size (ctxs s1 p) = chunk_size (ctxs s p)"
      and cnt: "chunk_counter (ctxs s1 p) = chunk_counter (ctxs s p) + 1"
      and hd: "head (buffer (ctxs s1 p)) = head (buffer (ctxs s p))"
      and len: "unat (length_bytes (buffer (ctxs s1 p))) =
                  unat (length_bytes (buffer (ctxs s p))) - unat (chunk_size (ctxs s p))"
      and tl: "unat (tail (buffer (ctxs s1 p))) =
                 (unat (tail (buffer (ctxs s p))) + unat (chunk_size (ctxs s p)))
                   mod unat (buffer_size (config (ctxs s p)))"
    by blast
  from ring_inv_consume [OF Suc.prems(1-3) enough] irq have inv: "ring_inv (ctxs s1 p)"
    by auto
  have fit: "fits_int (buffer_size (config (ctxs s1 p)))"
    using cfg Suc.prems(3) by simp
  have rest: "unat (length_bytes (buffer (ctxs s1 p))) = k' * unat (chunk_size (ctxs s1 p))"
    using len chk Suc.prems(4) k by simp
  from Suc.IH [OF act inv fit rest ik] obtain ev' s'
    where run: "consume i s1 = Inr (ev', s')"
      and act': "active_ctx s' = Some p"
      and inv': "ring_inv (ctxs s' p)"
      and cfg': "config (ctxs s' p) = config (ctxs s1 p)"
      and chk': "chunk_size (ctxs s' p) = chunk_size (ctxs s1 p)"
      and len': "unat (length_bytes (buffer (ctxs s' p))) = (k' - i) * unat (chunk_size (ctxs s1 p))"
      and tl': "unat (tail (buffer (ctxs s' p))) =
                  (unat (tail (buffer (ctxs s1 p))) + i * unat (chunk_size (ctxs s1 p)))
                    mod unat (buffer_size (config (ctxs s1 p)))"
      and hd': "head (buffer (ctxs s' p)) = head (buffer (ctxs s1 p))"
      and cnt': "chunk_counter (ctxs s' p) = chunk_counter (ctxs s1 p) + of_nat i"
    by blast
  have "unat (tail (buffer (ctxs s' p))) =
          (unat (tail (buffer (ctxs s p))) + Suc i * unat (chunk_size (ctxs s p)))
            mod unat (buffer_size (config (ctxs s p)))"
    unfolding tl' tl chk cfg by (simp add: mod_add_left_eq add.assoc)
  then show ?case
    using irq run act' inv' cfg' cfg chk' len' hd' hd cnt' cnt chk k by simp
qed

subsection \<open>Runs and the refill flag\<close>

lemma irq_result:
  assumes act: "active_ctx s = Some p"
    and irq: "spu_irq_handler s = Inr (ev, s')"
  shows "active_ctx s' = Some p \<and>
         config (ctxs s' p) = config (ctxs s p) \<and>
         (callback_issued (ctxs s p) \<longrightarrow> callback_issued (ctxs s' p) \<and> refill_calls ev = []) \<and>
         (refill_calls ev \<noteq> [] \<longrightarrow>
            callback_issued (ctxs s' p) \<and> \<not> above_threshold (ctxs s' p) \<and>
            (\<exists>f. refill_calls ev = [f] \<and> refill_callback (config (ctxs s p)) = Some f))"
proof (cases "sint (length_bytes (buffer (ctxs s p)) - chunk_size (ctxs s p)) < 0")
  case True
  from irq_underrun [OF act True] irq
  have "ev = (case underrun_callback (config (ctxs s p)) of
                None \<Rightarrow> [] | Some f \<Rightarrow> [Underrun_Callback f])"
    and "s' = s\<lparr>SPU_CTRL := (SPU_CTRL s AND NOT (push_bit 6 1)) OR push_bit 6 1\<rparr>"
    by simp_all
  then show ?thesis
    using act by (simp split: option.splits)
next
  case False
  have nz: "buffer_size (config (ctxs s p)) \<noteq> 0"
    using irq act False by (auto simp: spu_irq_handler_def Let_def)
  from irq_consume [OF act False nz] irq show ?thesis
    by (auto simp: above_threshold_def split: option.splits if_splits)
qed

lemma feed_result:
  assumes feed: "Stream_Feed p n s = Inr s'"
  shows "active_ctx s' = active_ctx s \<and>
         config (ctxs s' p) = config (ctxs s p) \<and>
         (callback_issued (ctxs s' p) \<longleftrightarrow>
            callback_issued (ctxs s p) \<and> \<not> above_threshold (ctxs s' p))"
proof -
  have nz: "buffer_size (config (ctxs s p)) \<noteq> 0"
    using feed by (auto simp: Stream_Feed_def Let_def)
  from feed_fields [OF nz, of n] feed show ?thesis
    by (auto simp: above_threshold_def)
qed

lemma step_total:
  assumes "active_ctx s = Some p" "buffer_size (config (ctxs s p)) \<noteq> 0"
  shows "\<exists>ev s'. step p x s = Inr (ev, s') \<and> active_ctx s' = Some p \<and>
           buffer_size (config (ctxs s' p)) \<noteq> 0"
proof (cases x)
  case (Feed n)
  from feed_fields [OF assms(2), of n] assms Feed show ?thesis
    by auto
next
  case Consume
  show ?thesis
  proof (cases "sint (length_bytes (buffer (ctxs s p)) - chunk_size (ctxs s p)) < 0")
    case True
    from irq_underrun [OF assms(1) True] assms Consume show ?thesis
      by simp
  next
    case False
    from irq_consume [OF assms(1) False assms(2)] assms(2) Consume show ?thesis
      by auto
  qed
qed

lemma run_total:
  assumes "active_ctx s = Some p" "buffer_size (config (ctxs s p)) \<noteq> 0"
  shows "\<exists>r. run p ops s = Inr r \<and> length r = length ops"
  using assms
proof (induction ops arbitrary: s)
  case Nil
  then show ?case by simp
next
  case (Cons x xs)
  from step_total [OF Cons.prems, of x] obtain ev s'
    where st: "step p x s = Inr (ev, s')" and act: "active_ctx s' = Some p"
      and nz: "buffer_size (config (ctxs s' p)) \<noteq> 0"
    by blast
  from Cons.IH [OF act nz] obtain r where "run p xs s' = Inr r" "length r = length xs"
    by blast
  with st show ?case
    by simp
qed

lemma fire_facts:
  assumes "active_ctx s = Some p"
    and "run p ops s = Inr r"
    and "j < length r"
    and "refill_calls (fst (r ! j)) \<noteq> []"
  shows "ops ! j = Consume \<and>
         \<not> above_threshold (ctxs (snd (r ! j)) p) \<and>
         callback_issued (ctxs (snd (r ! j)) p) \<and>
         (\<exists>g. refill_calls (fst (r ! j)) = [g]) \<and>
         (callback_issued (ctxs s p) \<longrightarrow>
            (\<exists>k<j. \<exists>n. ops ! k = Feed n \<and>
               above_threshold (ctxs (snd (r ! k)) p) \<and>
               \<not> callback_issued (ctxs (snd (r ! k)) p)))"
  using assms
proof (induction ops arbitrary: s r j)
  case Nil
  then show ?case by simp
next
  case (Cons x xs)
  from Cons.prems(2) obtain ev s1 r'
    where st: "step p x s = Inr (ev, s1)"
      and rest: "run p xs s1 = Inr r'"
      and r: "r = (ev, s1) # r'"
    by (auto split: sum.splits)
  have act1: "active_ctx s1 = Some p"
  proof (cases x)
    case (Feed n)
    with st Cons.prems(1) feed_result [of p n s s1] show ?thesis
      by (auto split: sum.splits)
  next
    case Consume
    with st irq_result [OF Cons.prems(1), of ev s1] show ?thesis
      by simp
  qed
  show ?case
  proof (cases j)
    case 0
    with Cons.prems(4) r have fired: "refill_calls ev \<noteq> []"
      by simp
    have x: "x = Consume"
    proof (cases x)
      case (Feed n)
      with st fired show ?thesis
        by (auto split: sum.splits)
    qed simp
    with st have "spu_irq_handler s = Inr (ev, s1)"
      by simp
    from irq_result [OF Cons.prems(1) this] fired show ?thesis
      using 0 r x by auto
  next
    case (Suc j')
    with Cons.prems(3,4) r have j': "j' < length r'" and fired: "refill_calls (fst (r' ! j')) \<noteq> []"
      by simp_all
    note ih = Cons.IH [OF act1 rest j' fired]
    have crossing: "\<exists>k<j. \<exists>n. (x # xs) ! k = Feed n \<and>
               above_threshold (ctxs (snd (r ! k)) p) \<and>
               \<not> callback_issued (ctxs (snd (r ! k)) p)"
      if flag: "callback_issued (ctxs s p)"
    proof (cases "callback_issued (ctxs s1 p)")
      case True
      with ih obtain k n where "k < j'" "xs ! k = Feed n"
        "above_threshold (ctxs (snd (r' ! k)) p)"
        "\<not> callback_issued (ctxs (snd (r' ! k)) p)"
        by blast
      then have "Suc k < j \<and> (x # xs) ! Suc k = Feed n \<and>
                 above_threshold (ctxs (snd (r ! Suc k)) p) \<and>
                 \<not> callback_issued (ctxs (snd (r ! Suc k)) p)"
        using Suc r by simp
      then show ?thesis
        by blast
    next
      case False
      have "\<exists>n. x = Feed n \<and> above_threshold (ctxs s1 p)"
      proof (cases x)
        case (Feed n)
        with st have "Stream_Feed p n s = Inr s1"
          by (auto split: sum.splits)
        from feed_result [OF this] flag False Feed show ?thesis
          by simp
      next
        case Consume
        with st irq_result [OF Cons.prems(1), of ev s1] flag False show ?thesis
          by simp
      qed
      then have "0 < j \<and> (\<exists>n. (x # xs) ! 0 = Feed n) \<and>
                 above_threshold (ctxs (snd (r ! 0)) p) \<and>
                 \<not> callback_issued (ctxs (snd (r ! 0)) p)"
        using Suc r False by auto
      then show ?thesis
        by blast
    qed
    show ?thesis
      using ih crossing Suc r by simp
  qed
qed

lemma dip_eval:
  "case spu_irq_handler dip_state of
     Inl e \<Rightarrow> False
   | Inr (ev, s1) \<Rightarrow>
       refill_calls ev = [1] \<and>
       (case run 0 [Feed 1024, Consume] s1 of
          Inl e \<Rightarrow> False
        | Inr r \<Rightarrow> length r = 2 \<and> refill_calls (fst (r ! 1)) = [1])"
  by (simp add: dip_state_def example_system_def example_context_def example_config_def
      spu_irq_handler_def Stream_Feed_def Let_def irq_channels.simps
      refill_calls_append)

lemma irq_flag:
  assumes act: "active_ctx s = Some p"
    and fl: "fits_int (length_bytes (buffer (ctxs s p)))"
    and fk: "fits_int (chunk_size (ctxs s p))"
    and nz: "buffer_size (config (ctxs s p)) \<noteq> 0"
  shows "\<exists>ev s'. spu_irq_handler s = Inr (ev, s') \<and>
           active_ctx s' = Some p \<and>
           config (ctxs s' p) = config (ctxs s p) \<and>
           chunk_size (ctxs s' p) = chunk_size (ctxs s p) \<and>
           (callback_issued (ctxs s' p) \<longleftrightarrow>
              callback_issued (ctxs s p) \<or>
              (chunk_size (ctxs s p) \<le> length_bytes (buffer (ctxs s p)) \<and>
               \<not> above_threshold (ctxs s' p))) \<and>
           refill_calls ev =
             (if chunk_size (ctxs s p) \<le> length_bytes (buffer (ctxs s p)) \<and>
                 \<not> above_threshold (ctxs s' p) \<and> \<not> callback_issued (ctxs s p)
              then (case refill_callback (config (ctxs s p)) of None \<Rightarrow> [] | Some f \<Rightarrow> [f])
              else []) \<and>
           (above_threshold (ctxs s' p) \<longrightarrow> above_threshold (ctxs s p)) \<and>
           (length_bytes (buffer (ctxs s p)) < chunk_size (ctxs s p) \<longrightarrow>
              ctxs s' p = ctxs s p)"
proof (cases "length_bytes (buffer (ctxs s p)) < chunk_size (ctxs s p)")
  case True
  then have "sint (length_bytes (buffer (ctxs s p)) - chunk_size (ctxs s p)) < 0"
    unfolding sint_sub_neg_iff [OF fl fk] .
  moreover have "\<not> chunk_size (ctxs s p) \<le> length_bytes (buffer (ctxs s p))"
    using True by (simp add: not_le)
  ultimately show ?thesis
    using irq_underrun [OF act] act by (simp split: option.splits)
next
  case False
  then have le: "chunk_size (ctxs s p) \<le> length_bytes (buffer (ctxs s p))"
    by (simp add: not_less)
  have go: "\<not> sint (length_bytes (buffer (ctxs s p)) - chunk_size (ctxs s p)) < 0"
    using False unfolding sint_sub_neg_iff [OF fl fk] .
  have smaller: "length_bytes (buffer (ctxs s p)) - chunk_size (ctxs s p)
                   \<le> length_bytes (buffer (ctxs s p))"
    using le unat_sub [OF le] by (simp add: word_le_nat_alt)
  from irq_consume [OF act go nz] obtain ev s'
    where "spu_irq_handler s = Inr (ev, s')"
      and "active_ctx s' = Some p"
      and "config (ctxs s' p) = config (ctxs s p)"
      and "chunk_size (ctxs s' p) = chunk_size (ctxs s p)"
      and "length_bytes (buffer (ctxs s' p)) =
             length_bytes (buffer (ctxs s p)) - chunk_size (ctxs s p)"
      and "callback_issued (ctxs s' p) \<longleftrightarrow>
              callback_issued (ctxs s p) \<or>
              length_bytes (buffer (ctxs s p)) - chunk_size (ctxs s p)
                \<le> refill_threshold (config (ctxs s p))"
      and "refill_calls ev =
             (if length_bytes (buffer (ctxs s p)) - chunk_size (ctxs s p)
                   \<le> refill_threshold (config (ctxs s p)) \<and> \<not> callback_issued (ctxs s p)
              then (case refill_callback (config (ctxs s p)) of None \<Rightarrow> [] | Some f \<Rightarrow> [f])
              else [])"
    by blast
  then show ?thesis
    using le smaller by (auto simp: above_threshold_def not_less)
qed

lemma ring_inv_irq:
  assumes act: "active_ctx s = Some p"
    and inv: "ring_inv (ctxs s p)"
    and fit: "fits_int (buffer_size (config (ctxs s p)))"
    and fk: "fits_int (chunk_size (ctxs s p))"
  shows "\<exists>ev s'. spu_irq_handler s = Inr (ev, s') \<and> ring_inv (ctxs s' p)"
proof (cases "chunk_size (ctxs s p) \<le> length_bytes (buffer (ctxs s p))")
  case True
  then show ?thesis
    by (rule ring_inv_consume [OF act inv fit])
next
  case False
  have "length_bytes (buffer (ctxs s p)) \<le> buffer_size (config (ctxs s p))"
    using inv by (simp add: ring_inv_def)
  then have fl: "fits_int (length_bytes (buffer (ctxs s p)))"
    using fit by (simp add: fits_int_def)
  have "length_bytes (buffer (ctxs s p)) < chunk_size (ctxs s p)"
    using False by simp
  then have "sint (length_bytes (buffer (ctxs s p)) - chunk_size (ctxs s p)) < 0"
    unfolding sint_sub_neg_iff [OF fl fk] .
  then show ?thesis
    using act inv by (simp add: irq_underrun ring_inv_def)
qed

lemma step_ok:
  assumes ok: "stream_ok p s"
    and st: "step p x s = Inr (ev, s')"
  shows "stream_ok p s' \<and>
         config (ctxs s' p) = config (ctxs s p) \<and>
         (x = Consume \<and> above_threshold (ctxs s p) \<and> \<not> above_threshold (ctxs s' p) \<longrightarrow>
            refill_calls ev =
              (case refill_callback (config (ctxs s p)) of None \<Rightarrow> [] | Some f \<Rightarrow> [f]))"
proof (cases x)
  case (Feed n)
  with st have feed: "Stream_Feed p n s = Inr s'"
    by (auto split: sum.splits)
  have inv: "ring_inv (ctxs s p)" and fit: "fits_int (buffer_size (config (ctxs s p)))"
    using ok by (simp_all add: stream_ok_def)
  from ring_inv_feed [OF inv fit, of n] feed have "ring_inv (ctxs s' p)"
    by auto
  moreover from feed_nat [OF inv fit, of n] feed
  have "chunk_size (ctxs s' p) = chunk_size (ctxs s p)"
    by auto
  ultimately show ?thesis
    using feed_result [OF feed] ok Feed by (simp add: stream_ok_def flag_inv_def)
next
  case Consume
  with st have irq: "spu_irq_handler s = Inr (ev, s')"
    by simp
  have act: "active_ctx s = Some p" and inv: "ring_inv (ctxs s p)"
    and fit: "fits_int (buffer_size (config (ctxs s p)))"
    and fk: "fits_int (chunk_size (ctxs s p))"
    and flag: "above_threshold (ctxs s p) \<longrightarrow> \<not> callback_issued (ctxs s p)"
    using ok by (simp_all add: stream_ok_def flag_inv_def)
  have "length_bytes (buffer (ctxs s p)) \<le> buffer_size (config (ctxs s p))"
    using inv by (simp add: ring_inv_def)
  then have fl: "fits_int (length_bytes (buffer (ctxs s p)))"
    using fit by (simp add: fits_int_def)
  have nz: "buffer_size (config (ctxs s p)) \<noteq> 0"
    using inv by (auto simp: ring_inv_def)
  from ring_inv_irq [OF act inv fit fk] irq have inv': "ring_inv (ctxs s' p)"
    by auto
  from irq_flag [OF act fl fk nz] irq
  have facts: "active_ctx s' = Some p"
    "config (ctxs s' p) = config (ctxs s p)"
    "chunk_size (ctxs s' p) = chunk_size (ctxs s p)"
    "callback_issued (ctxs s' p) \<longleftrightarrow>
       callback_issued (ctxs s p) \<or>
       (chunk_size (ctxs s p) \<le> length_bytes (buffer (ctxs s p)) \<and>
        \<not> above_threshold (ctxs s' p))"
    "refill_calls ev =
       (if chunk_size (ctxs s p) \<le> length_bytes (buffer (ctxs s p)) \<and>
           \<not> above_threshold (ctxs s' p) \<and> \<not> callback_issued (ctxs s p)
        then (case refill_callback (config (ctxs s p)) of None \<Rightarrow> [] | Some f \<Rightarrow> [f])
        else [])"
    "above_threshold (ctxs s' p) \<longrightarrow> above_threshold (ctxs s p)"
    "length_bytes (buffer (ctxs s p)) < chunk_size (ctxs s p) \<longrightarrow> ctxs s' p = ctxs s p"
    by auto
  have ok': "stream_ok p s'"
    using facts(1-4,6) inv' fit fk flag by (auto simp: stream_ok_def flag_inv_def)
  have dip: "refill_calls ev =
              (case refill_callback (config (ctxs s p)) of None \<Rightarrow> [] | Some f \<Rightarrow> [f])"
    if "above_threshold (ctxs s p)" "\<not> above_threshold (ctxs s' p)"
  proof -
    have "\<not> length_bytes (buffer (ctxs s p)) < chunk_size (ctxs s p)"
      using that facts(7) by auto
    then have "chunk_size (ctxs s p) \<le> length_bytes (buffer (ctxs s p))"
      by (simp add: not_less)
    then show ?thesis
      using facts(5) that flag by simp
  qed
  show ?thesis
    using ok' facts(2) dip by simp
qed

lemma state_before_Cons:
  "state_before s ((ev, s1) # r) (Suc i) = state_before s1 r i"
  by (cases i) (simp_all add: state_before_def)

lemma run_dips:
  assumes "stream_ok p s"
    and "run p ops s = Inr r"
    and "i < length r"
  shows "stream_ok p (snd (r ! i)) \<and>
         config (ctxs (snd (r ! i)) p) = config (ctxs s p) \<and>
         (ops ! i = Consume \<and> above_threshold (ctxs (state_before s r i) p) \<and>
          \<not> above_threshold (ctxs (snd (r ! i)) p) \<longrightarrow>
            refill_calls (fst (r ! i)) =
              (case refill_callback (config (ctxs s p)) of None \<Rightarrow> [] | Some f \<Rightarrow> [f]))"
  using assms
proof (induction ops arbitrary: s r i)
  case Nil
  then show ?case by simp
next
  case (Cons x xs)
  from Cons.prems(2) obtain ev s1 r'
    where st: "step p x s = Inr (ev, s1)"
      and rest: "run p xs s1 = Inr r'"
      and r: "r = (ev, s1) # r'"
    by (auto split: sum.splits)
  note first = step_ok [OF Cons.prems(1) st]
  show ?case
  proof (cases i)
    case 0
    then show ?thesis
      using first r by (simp add: state_before_def)
  next
    case (Suc j)
    with Cons.prems(3) r have j: "j < length r'"
      by simp
    from first have ok1: "stream_ok p s1" and cfg: "config (ctxs s1 p) = config (ctxs s p)"
      by simp_all
    from Cons.IH [OF ok1 rest j] show ?thesis
      using Suc r cfg by (simp add: state_before_Cons)
  qed
qed

lemma scenario_eval:
  "case run 0 [Consume, Consume, Consume, Consume] consume_state of
     Inl e \<Rightarrow> False
   | Inr r \<Rightarrow>
       length r = 4 \<and>
       map (\<lambda>x. refill_calls (fst x)) r = [[], [1], [], []] \<and>
       map (\<lambda>x. length_bytes (buffer (ctxs (snd x) 0))) r = [3072, 2048, 1024, 0] \<and>
       map (\<lambda>x. above_threshold (ctxs (snd x) 0)) r = [True, False, False, False]"
  by (simp add: consume_state_def example_system_def example_context_def example_config_def
      spu_irq_handler_def Let_def irq_channels.simps refill_calls_append above_threshold_def)

section \<open>Start and stop\<close>

text \<open>
  C7. When a stream is already bound as the active stream, Stream_Start returns false,
  calls nothing and leaves the whole state (every context, the active-stream pointer,
  the SPU control register, the interrupt vectors) as it was. When no stream is
  active, Stream_Stop returns false and does the same.
\<close>

theorem start_stop_refused_unchanged:
  "(active_ctx s \<noteq> None \<longrightarrow> Stream_Start p resume s = Inr (False, [], s)) \<and>
   (active_ctx s = None \<longrightarrow> Stream_Stop s = (False, [], s))"
  by (auto simp: Stream_Start_def Stream_Stop_def)

theorem start_stop_refused_unchanged_witness:
  "Stream_Start 1 False (example_system (example_context (example_config 4096 2048) 0 0 0) (Some 0))
     = Inr (False, [], example_system (example_context (example_config 4096 2048) 0 0 0) (Some 0)) \<and>
   Stream_Stop (example_system (example_context (example_config 4096 2048) 0 0 0) None)
     = (False, [], example_system (example_context (example_config 4096 2048) 0 0 0) None)"
  using start_stop_refused_unchanged
          [of "example_system (example_context (example_config 4096 2048) 0 0 0) (Some 0)" 1 False]
        start_stop_refused_unchanged
          [of "example_system (example_context (example_config 4096 2048) 0 0 0) None" 1 False]
  by (simp add: example_system_def)

text \<open>
  C10. When a context is active, Stream_Start returns false for every context it is
  called on, the active one included: starting the stream that is already playing is
  refused, and nothing is called or changed.
\<close>

theorem start_on_active_context_refused:
  assumes "Stream_IsActive (Some q) s"
  shows "Stream_Start q resume s = Inr (False, [], s) \<and>
         Stream_Start p resume s = Inr (False, [], s)"
proof -
  have "active_ctx s = Some q"
    using assms by (simp add: Stream_IsActive_def)
  then show ?thesis
    by (simp add: Stream_Start_def)
qed

theorem start_on_active_context_refused_witness:
  "Stream_IsActive (Some 0) (example_system (example_context (example_config 4096 2048) 0 0 0) (Some 0)) \<and>
   Stream_Start 0 True (example_system (example_context (example_config 4096 2048) 0 0 0) (Some 0))
     = Inr (False, [], example_system (example_context (example_config 4096 2048) 0 0 0) (Some 0)) \<and>
   Stream_Start 1 True (example_system (example_context (example_config 4096 2048) 0 0 0) (Some 0))
     = Inr (False, [], example_system (example_context (example_config 4096 2048) 0 0 0) (Some 0))"
proof -
  have a: "Stream_IsActive (Some 0)
             (example_system (example_context (example_config 4096 2048) 0 0 0) (Some 0))"
    by (simp add: Stream_IsActive_def example_system_def)
  show ?thesis
    using a start_on_active_context_refused [OF a, of True 1] by simp
qed

section \<open>Underrun\<close>

text \<open>
  C2. With an active stream whose buffered length and chunk size fit an \<open>int\<close> (the
  range in which the handler's \<open>int\<close> difference means what it says) and a buffer
  size that is not zero, the handler returns, and the calls of the underrun callback
  it made are: one call of the registered callback when the buffered length is
  strictly less than \<open>chunk_size\<close>, and none otherwise. So a registered underrun
  callback is called if and only if \<open>length < chunk_size\<close>. In that case \<open>tail\<close> and
  \<open>length\<close> are unchanged; indeed no context is changed at all.
\<close>

theorem underrun_callback_iff:
  assumes "active_ctx s = Some p"
    and "fits_int (length_bytes (buffer (ctxs s p)))"
    and "fits_int (chunk_size (ctxs s p))"
    and "buffer_size (config (ctxs s p)) \<noteq> 0"
  shows "\<exists>ev s'. spu_irq_handler s = Inr (ev, s') \<and>
           underrun_calls ev =
             (if length_bytes (buffer (ctxs s p)) < chunk_size (ctxs s p)
              then (case underrun_callback (config (ctxs s p)) of None \<Rightarrow> [] | Some f \<Rightarrow> [f])
              else []) \<and>
           (\<forall>f. underrun_callback (config (ctxs s p)) = Some f \<longrightarrow>
                (f \<in> set (underrun_calls ev)
                   \<longleftrightarrow> length_bytes (buffer (ctxs s p)) < chunk_size (ctxs s p))) \<and>
           (length_bytes (buffer (ctxs s p)) < chunk_size (ctxs s p) \<longrightarrow>
              tail (buffer (ctxs s' p)) = tail (buffer (ctxs s p)) \<and>
              length_bytes (buffer (ctxs s' p)) = length_bytes (buffer (ctxs s p)) \<and>
              ctxs s' = ctxs s)"
proof (cases "length_bytes (buffer (ctxs s p)) < chunk_size (ctxs s p)")
  case True
  then have "sint (length_bytes (buffer (ctxs s p)) - chunk_size (ctxs s p)) < 0"
    using assms(2,3) by (simp add: sint_sub_neg_iff)
  then show ?thesis
    using assms(1) True by (simp add: irq_underrun split: option.splits)
next
  case False
  then have "\<not> sint (length_bytes (buffer (ctxs s p)) - chunk_size (ctxs s p)) < 0"
    using assms(2,3) by (simp add: sint_sub_neg_iff)
  from irq_consume [OF assms(1) this assms(4)] obtain ev s'
    where "spu_irq_handler s = Inr (ev, s')" and "underrun_calls ev = []"
    by blast
  then show ?thesis
    using False by simp
qed

theorem underrun_callback_iff_witness:
  "length_bytes (buffer (ctxs underrun_state 0)) < chunk_size (ctxs underrun_state 0) \<and>
   (\<exists>ev s'. spu_irq_handler underrun_state = Inr (ev, s') \<and>
      underrun_calls ev = [2] \<and>
      tail (buffer (ctxs s' 0)) = tail (buffer (ctxs underrun_state 0)) \<and>
      length_bytes (buffer (ctxs s' 0)) = length_bytes (buffer (ctxs underrun_state 0)))"
proof -
  have a: "active_ctx underrun_state = Some 0"
    by (simp add: underrun_state_def example_system_def)
  have b: "fits_int (length_bytes (buffer (ctxs underrun_state 0)))"
    by (simp add: underrun_state_def example_system_def example_context_def fits_int_def)
  have c: "fits_int (chunk_size (ctxs underrun_state 0))"
    by (simp add: underrun_state_def example_system_def example_context_def fits_int_def)
  have d: "buffer_size (config (ctxs underrun_state 0)) \<noteq> 0"
    by (simp add: underrun_state_def example_system_def example_context_def example_config_def)
  have e: "length_bytes (buffer (ctxs underrun_state 0)) < chunk_size (ctxs underrun_state 0)"
    by (simp add: underrun_state_def example_system_def example_context_def)
  have f: "underrun_callback (config (ctxs underrun_state 0)) = Some 2"
    by (simp add: underrun_state_def example_system_def example_context_def example_config_def)
  show ?thesis
    using e f underrun_callback_iff [OF a b c d] by auto
qed

text \<open>
  C9. On a consumption attempt with fewer than \<open>chunk_size\<close> bytes buffered the
  handler returns without calling the refill callback and without changing
  \<open>callback_issued\<close>, whatever the refill threshold is: the theorem has no
  hypothesis about the threshold, and in the witness the buffered length is below it.
\<close>

theorem underrun_skips_refill:
  assumes "active_ctx s = Some p"
    and "fits_int (length_bytes (buffer (ctxs s p)))"
    and "fits_int (chunk_size (ctxs s p))"
    and "length_bytes (buffer (ctxs s p)) < chunk_size (ctxs s p)"
  shows "\<exists>ev s'. spu_irq_handler s = Inr (ev, s') \<and>
           refill_calls ev = [] \<and>
           callback_issued (ctxs s' p) = callback_issued (ctxs s p) \<and>
           ctxs s' = ctxs s"
proof -
  have "sint (length_bytes (buffer (ctxs s p)) - chunk_size (ctxs s p)) < 0"
    using assms(2-4) by (simp add: sint_sub_neg_iff)
  then show ?thesis
    using assms(1) by (simp add: irq_underrun split: option.splits)
qed

theorem underrun_skips_refill_witness:
  "length_bytes (buffer (ctxs underrun_state 0)) \<le> refill_threshold (config (ctxs underrun_state 0)) \<and>
   (\<exists>ev s'. spu_irq_handler underrun_state = Inr (ev, s') \<and>
           refill_calls ev = [] \<and>
           callback_issued (ctxs s' 0) = callback_issued (ctxs underrun_state 0) \<and>
           ctxs s' = ctxs underrun_state)"
proof -
  have a: "active_ctx underrun_state = Some 0"
    by (simp add: underrun_state_def example_system_def)
  have b: "fits_int (length_bytes (buffer (ctxs underrun_state 0)))"
    by (simp add: underrun_state_def example_system_def example_context_def fits_int_def)
  have c: "fits_int (chunk_size (ctxs underrun_state 0))"
    by (simp add: underrun_state_def example_system_def example_context_def fits_int_def)
  have d: "length_bytes (buffer (ctxs underrun_state 0)) < chunk_size (ctxs underrun_state 0)"
    by (simp add: underrun_state_def example_system_def example_context_def)
  have e: "length_bytes (buffer (ctxs underrun_state 0))
             \<le> refill_threshold (config (ctxs underrun_state 0))"
    by (simp add: underrun_state_def example_system_def example_context_def example_config_def)
  show ?thesis
    using e underrun_skips_refill [OF a b c d] by simp
qed

section \<open>Double-buffer index\<close>

text \<open>
  C8, as stated, fails: an invocation that finds fewer than \<open>chunk_size\<close> bytes
  returns before the toggle. With 256 bytes buffered and a chunk of 1024 the handler
  calls the underrun callback and leaves the state, \<open>db_active\<close> included, as it was.
\<close>

theorem db_active_not_toggled_counterexample:
  "active_ctx underrun_state = Some 0 \<and>
   spu_irq_handler underrun_state = Inr ([Underrun_Callback 2], underrun_state) \<and>
   db_active (ctxs underrun_state 0) \<noteq> db_active (ctxs underrun_state 0) XOR 1"
  by (simp add: underrun_state_def example_system_def example_context_def example_config_def
      spu_irq_handler_def Let_def)

text \<open>
  C8, amended. Every invocation that finds at least \<open>chunk_size\<close> bytes toggles
  \<open>db_active\<close> exactly once (the new value is the old one XOR 1, and differs from
  it); an invocation that underruns leaves it unchanged; and after two consecutive
  invocations that both find a chunk the index is back at its first value.
\<close>

theorem db_active_toggled_per_consumption:
  assumes "active_ctx s = Some p"
    and "fits_int (length_bytes (buffer (ctxs s p)))"
    and "fits_int (chunk_size (ctxs s p))"
    and "buffer_size (config (ctxs s p)) \<noteq> 0"
  shows "\<exists>ev s'. spu_irq_handler s = Inr (ev, s') \<and>
           (chunk_size (ctxs s p) \<le> length_bytes (buffer (ctxs s p)) \<longrightarrow>
              db_active (ctxs s' p) = db_active (ctxs s p) XOR 1 \<and>
              db_active (ctxs s' p) \<noteq> db_active (ctxs s p)) \<and>
           (length_bytes (buffer (ctxs s p)) < chunk_size (ctxs s p) \<longrightarrow>
              db_active (ctxs s' p) = db_active (ctxs s p)) \<and>
           (chunk_size (ctxs s p) \<le> length_bytes (buffer (ctxs s p)) \<and>
            chunk_size (ctxs s p) \<le> length_bytes (buffer (ctxs s p)) - chunk_size (ctxs s p) \<longrightarrow>
              (\<exists>ev2 s2. spu_irq_handler s' = Inr (ev2, s2) \<and>
                 db_active (ctxs s2 p) = db_active (ctxs s p)))"
proof (cases "length_bytes (buffer (ctxs s p)) < chunk_size (ctxs s p)")
  case True
  then have "sint (length_bytes (buffer (ctxs s p)) - chunk_size (ctxs s p)) < 0"
    using assms(2,3) by (simp add: sint_sub_neg_iff)
  then show ?thesis
    using assms(1) True by (simp add: irq_underrun)
next
  case False
  then have le: "chunk_size (ctxs s p) \<le> length_bytes (buffer (ctxs s p))"
    by simp
  have "\<not> sint (length_bytes (buffer (ctxs s p)) - chunk_size (ctxs s p)) < 0"
    using False assms(2,3) by (simp add: sint_sub_neg_iff)
  from irq_consume [OF assms(1) this assms(4)] obtain ev s'
    where first: "spu_irq_handler s = Inr (ev, s')"
      and act: "active_ctx s' = Some p"
      and cfg: "config (ctxs s' p) = config (ctxs s p)"
      and chk: "chunk_size (ctxs s' p) = chunk_size (ctxs s p)"
      and len: "length_bytes (buffer (ctxs s' p)) =
                  length_bytes (buffer (ctxs s p)) - chunk_size (ctxs s p)"
      and db: "db_active (ctxs s' p) = db_active (ctxs s p) XOR 1"
    by blast
  have twice: "\<exists>ev2 s2. spu_irq_handler s' = Inr (ev2, s2) \<and>
                 db_active (ctxs s2 p) = db_active (ctxs s p)"
    if again: "chunk_size (ctxs s p) \<le> length_bytes (buffer (ctxs s p)) - chunk_size (ctxs s p)"
  proof -
    have f1: "fits_int (length_bytes (buffer (ctxs s' p)))"
      using len le assms(2) by (simp add: fits_int_diff)
    have f2: "fits_int (chunk_size (ctxs s' p))"
      using chk assms(3) by simp
    have "\<not> length_bytes (buffer (ctxs s' p)) < chunk_size (ctxs s' p)"
      using again len chk by simp
    then have "\<not> sint (length_bytes (buffer (ctxs s' p)) - chunk_size (ctxs s' p)) < 0"
      unfolding sint_sub_neg_iff [OF f1 f2] .
    moreover have "buffer_size (config (ctxs s' p)) \<noteq> 0"
      using cfg assms(4) by simp
    ultimately obtain ev2 s2
      where "spu_irq_handler s' = Inr (ev2, s2)"
        and "db_active (ctxs s2 p) = db_active (ctxs s' p) XOR 1"
      using irq_consume [OF act] by blast
    then show ?thesis
      using db by (simp add: xor.assoc)
  qed
  show ?thesis
    using first db le False twice by (auto simp: xor_one_neq)
qed

theorem db_active_toggled_per_consumption_witness:
  "chunk_size (ctxs consume_state 0) \<le> length_bytes (buffer (ctxs consume_state 0)) \<and>
   chunk_size (ctxs consume_state 0)
     \<le> length_bytes (buffer (ctxs consume_state 0)) - chunk_size (ctxs consume_state 0) \<and>
   (\<exists>ev s'. spu_irq_handler consume_state = Inr (ev, s') \<and>
      db_active (ctxs s' 0) = db_active (ctxs consume_state 0) XOR 1 \<and>
      db_active (ctxs s' 0) \<noteq> db_active (ctxs consume_state 0) \<and>
      (\<exists>ev2 s2. spu_irq_handler s' = Inr (ev2, s2) \<and>
         db_active (ctxs s2 0) = db_active (ctxs consume_state 0)))"
proof -
  have a: "active_ctx consume_state = Some 0"
    by (simp add: consume_state_def example_system_def)
  have b: "fits_int (length_bytes (buffer (ctxs consume_state 0)))"
    by (simp add: consume_state_def example_system_def example_context_def fits_int_def)
  have c: "fits_int (chunk_size (ctxs consume_state 0))"
    by (simp add: consume_state_def example_system_def example_context_def fits_int_def)
  have d: "buffer_size (config (ctxs consume_state 0)) \<noteq> 0"
    by (simp add: consume_state_def example_system_def example_context_def example_config_def)
  have e: "chunk_size (ctxs consume_state 0) \<le> length_bytes (buffer (ctxs consume_state 0))"
    by (simp add: consume_state_def example_system_def example_context_def)
  have f: "chunk_size (ctxs consume_state 0)
             \<le> length_bytes (buffer (ctxs consume_state 0)) - chunk_size (ctxs consume_state 0)"
    by (simp add: consume_state_def example_system_def example_context_def)
  show ?thesis
    using e f db_active_toggled_per_consumption [OF a b c d] by blast
qed

section \<open>Ring buffer\<close>

text \<open>
  C4. The ring-buffer invariant (\<open>0 \<le> length \<le> capacity\<close>, \<open>head < capacity\<close>,
  \<open>tail < capacity\<close>, \<open>(tail + length) mod capacity = head\<close>) holds in the state that
  Stream_Init leaves for any capacity that is not zero, and every feed and every
  invocation of the consumption handler (one that takes a chunk as well as one that
  underruns) returns and preserves it. The capacity, and for the handler the chunk
  size, are taken to fit an \<open>int\<close>, as the casts of the code take them to: an allocated
  buffer is that small, and beyond that range the 32-bit sums \<open>head + length\<close> and
  \<open>tail + chunk_size\<close> can wrap.
\<close>

theorem ring_invariant_preserved:
  "(count_channels (channel_mask cfg) 0 \<noteq> 0 \<and> mem \<noteq> 0 \<and> buffer_size cfg \<noteq> 0 \<longrightarrow>
      (\<exists>s'. Stream_Init p cfg mem s = Inr s' \<and> ring_inv (ctxs s' p))) \<and>
   (ring_inv (ctxs s p) \<and> fits_int (buffer_size (config (ctxs s p))) \<longrightarrow>
      (\<exists>s'. Stream_Feed p n s = Inr s' \<and> ring_inv (ctxs s' p))) \<and>
   (active_ctx s = Some p \<and> ring_inv (ctxs s p) \<and>
    fits_int (buffer_size (config (ctxs s p))) \<and> fits_int (chunk_size (ctxs s p)) \<longrightarrow>
      (\<exists>ev s'. spu_irq_handler s = Inr (ev, s') \<and> ring_inv (ctxs s' p) \<and>
         (chunk_size (ctxs s p) \<le> length_bytes (buffer (ctxs s p)) \<longrightarrow>
            chunk_counter (ctxs s' p) = chunk_counter (ctxs s p) + 1)))"
proof (intro conjI impI)
  assume "count_channels (channel_mask cfg) 0 \<noteq> 0 \<and> mem \<noteq> 0 \<and> buffer_size cfg \<noteq> 0"
  then show "\<exists>s'. Stream_Init p cfg mem s = Inr s' \<and> ring_inv (ctxs s' p)"
    using init_fields [of cfg mem p s]
    by (auto simp: ring_inv_def word_neq_0_conv)
next
  assume "ring_inv (ctxs s p) \<and> fits_int (buffer_size (config (ctxs s p)))"
  then show "\<exists>s'. Stream_Feed p n s = Inr s' \<and> ring_inv (ctxs s' p)"
    by (simp add: ring_inv_feed)
next
  assume a: "active_ctx s = Some p \<and> ring_inv (ctxs s p) \<and>
    fits_int (buffer_size (config (ctxs s p))) \<and> fits_int (chunk_size (ctxs s p))"
  then have act: "active_ctx s = Some p" and inv: "ring_inv (ctxs s p)"
    and fit: "fits_int (buffer_size (config (ctxs s p)))"
    and fk: "fits_int (chunk_size (ctxs s p))"
    by simp_all
  show "\<exists>ev s'. spu_irq_handler s = Inr (ev, s') \<and> ring_inv (ctxs s' p) \<and>
         (chunk_size (ctxs s p) \<le> length_bytes (buffer (ctxs s p)) \<longrightarrow>
            chunk_counter (ctxs s' p) = chunk_counter (ctxs s p) + 1)"
  proof (cases "chunk_size (ctxs s p) \<le> length_bytes (buffer (ctxs s p))")
    case True
    from consume_nat [OF act inv fit True] ring_inv_consume [OF act inv fit True]
    show ?thesis
      by auto
  next
    case False
    have "length_bytes (buffer (ctxs s p)) \<le> buffer_size (config (ctxs s p))"
      using inv by (simp add: ring_inv_def)
    then have fl: "fits_int (length_bytes (buffer (ctxs s p)))"
      using fit by (simp add: fits_int_def)
    have "length_bytes (buffer (ctxs s p)) < chunk_size (ctxs s p)"
      using False by simp
    then have "sint (length_bytes (buffer (ctxs s p)) - chunk_size (ctxs s p)) < 0"
      unfolding sint_sub_neg_iff [OF fl fk] .
    then show ?thesis
      using act inv False by (simp add: irq_underrun ring_inv_def)
  qed
qed

theorem ring_invariant_preserved_witness:
  "(\<exists>s'. Stream_Init 0 (example_config 4096 2048) 0x80100000
            (example_system zero_context None) = Inr s' \<and>
          ring_inv (ctxs s' 0)) \<and>
   ring_inv (ctxs wrapped_state 0) \<and>
   (\<exists>s'. Stream_Feed 0 4096 wrapped_state = Inr s' \<and> ring_inv (ctxs s' 0)) \<and>
   (\<exists>ev s'. spu_irq_handler wrapped_state = Inr (ev, s') \<and> ring_inv (ctxs s' 0) \<and>
      chunk_counter (ctxs s' 0) = chunk_counter (ctxs wrapped_state 0) + 1)"
proof -
  have a: "count_channels (channel_mask (example_config 4096 2048)) 0 \<noteq> 0 \<and>
           (0x80100000 :: u32) \<noteq> 0 \<and> buffer_size (example_config 4096 2048) \<noteq> 0"
    by (simp add: example_config_def count_channels.simps)
  have b: "ring_inv (ctxs wrapped_state 0)"
    by (simp add: wrapped_state_def example_system_def example_context_def example_config_def
        ring_inv_def)
  have c: "fits_int (buffer_size (config (ctxs wrapped_state 0)))"
    by (simp add: wrapped_state_def example_system_def example_context_def example_config_def
        fits_int_def)
  have d: "fits_int (chunk_size (ctxs wrapped_state 0))"
    by (simp add: wrapped_state_def example_system_def example_context_def fits_int_def)
  have e: "active_ctx wrapped_state = Some 0"
    by (simp add: wrapped_state_def example_system_def)
  have f: "chunk_size (ctxs wrapped_state 0) \<le> length_bytes (buffer (ctxs wrapped_state 0))"
    by (simp add: wrapped_state_def example_system_def example_context_def)
  show ?thesis
    using a b c d e f
      ring_invariant_preserved [where cfg = "example_config 4096 2048" and mem = "0x80100000"
        and p = 0 and s = "example_system zero_context None"]
      ring_invariant_preserved [where p = 0 and s = wrapped_state and n = 4096]
    by blast
qed

text \<open>
  C3. On a buffer that satisfies the invariant, \<open>Stream_Feed\<close> called with \<open>n\<close> commits
  \<open>min n (capacity - length)\<close> bytes: the length grows by exactly that much, so a feed
  larger than the free space fills the buffer exactly; the length never exceeds the
  capacity; the tail is untouched and the head advances by the committed bytes modulo
  the capacity, so it stays \<open>length\<close> bytes ahead of the tail and never passes it.
\<close>

theorem feed_commits_min:
  assumes inv: "ring_inv (ctxs s p)"
    and fit: "fits_int (buffer_size (config (ctxs s p)))"
  shows "\<exists>s'. Stream_Feed p n s = Inr s' \<and>
           unat (length_bytes (buffer (ctxs s' p))) =
             unat (length_bytes (buffer (ctxs s p)))
             + min (unat n) (unat (buffer_size (config (ctxs s p)))
                             - unat (length_bytes (buffer (ctxs s p)))) \<and>
           (unat (buffer_size (config (ctxs s p))) - unat (length_bytes (buffer (ctxs s p)))
              < unat n \<longrightarrow>
              length_bytes (buffer (ctxs s' p)) = buffer_size (config (ctxs s p))) \<and>
           length_bytes (buffer (ctxs s' p)) \<le> buffer_size (config (ctxs s p)) \<and>
           buffer_size (config (ctxs s' p)) = buffer_size (config (ctxs s p)) \<and>
           tail (buffer (ctxs s' p)) = tail (buffer (ctxs s p)) \<and>
           unat (head (buffer (ctxs s' p))) =
             (unat (head (buffer (ctxs s p)))
              + min (unat n) (unat (buffer_size (config (ctxs s p)))
                              - unat (length_bytes (buffer (ctxs s p)))))
               mod unat (buffer_size (config (ctxs s p))) \<and>
           (unat (tail (buffer (ctxs s' p))) + unat (length_bytes (buffer (ctxs s' p))))
             mod unat (buffer_size (config (ctxs s p))) = unat (head (buffer (ctxs s' p)))"
proof -
  from feed_nat [OF inv fit, of n] obtain s'
    where feed: "Stream_Feed p n s = Inr s'"
      and cfg: "config (ctxs s' p) = config (ctxs s p)"
      and tl: "tail (buffer (ctxs s' p)) = tail (buffer (ctxs s p))"
      and len: "unat (length_bytes (buffer (ctxs s' p))) =
                  unat (length_bytes (buffer (ctxs s p)))
                  + min (unat n) (unat (buffer_size (config (ctxs s p)))
                                  - unat (length_bytes (buffer (ctxs s p))))"
      and hd: "unat (head (buffer (ctxs s' p))) =
                 (unat (head (buffer (ctxs s p)))
                  + min (unat n) (unat (buffer_size (config (ctxs s p)))
                                  - unat (length_bytes (buffer (ctxs s p)))))
                   mod unat (buffer_size (config (ctxs s p)))"
    by blast
  from ring_inv_feed [OF inv fit, of n] feed have inv': "ring_inv (ctxs s' p)"
    by auto
  have old: "unat (length_bytes (buffer (ctxs s p))) \<le> unat (buffer_size (config (ctxs s p)))"
    using inv by (simp add: ring_inv_def word_le_nat_alt)
  have full: "length_bytes (buffer (ctxs s' p)) = buffer_size (config (ctxs s p))"
    if "unat (buffer_size (config (ctxs s p))) - unat (length_bytes (buffer (ctxs s p)))
          < unat n"
  proof -
    have "unat (length_bytes (buffer (ctxs s' p))) = unat (buffer_size (config (ctxs s p)))"
      using len old that by simp
    then show ?thesis
      by (simp add: word_unat_eq_iff)
  qed
  show ?thesis
    using feed cfg tl len hd inv' full by (simp add: ring_inv_def)
qed

theorem feed_commits_min_witness:
  "unat (buffer_size (config (ctxs wrapped_state 0)))
     - unat (length_bytes (buffer (ctxs wrapped_state 0))) < unat (4096 :: u32) \<and>
   (\<exists>s'. Stream_Feed 0 4096 wrapped_state = Inr s' \<and>
      unat (length_bytes (buffer (ctxs s' 0))) = 2048 + min 4096 (4096 - 2048) \<and>
      length_bytes (buffer (ctxs s' 0)) = 4096 \<and>
      unat (head (buffer (ctxs s' 0))) = (1024 + min 4096 (4096 - 2048)) mod 4096)"
proof -
  have b: "ring_inv (ctxs wrapped_state 0)"
    by (simp add: wrapped_state_def example_system_def example_context_def example_config_def
        ring_inv_def)
  have c: "fits_int (buffer_size (config (ctxs wrapped_state 0)))"
    by (simp add: wrapped_state_def example_system_def example_context_def example_config_def
        fits_int_def)
  have d: "unat (buffer_size (config (ctxs wrapped_state 0))) = 4096"
    "unat (length_bytes (buffer (ctxs wrapped_state 0))) = 2048"
    "unat (head (buffer (ctxs wrapped_state 0))) = 1024"
    "buffer_size (config (ctxs wrapped_state 0)) = 4096"
    by (simp_all add: wrapped_state_def example_system_def example_context_def
        example_config_def)
  show ?thesis
    using feed_commits_min [OF b c, of 4096] unfolding d by auto
qed

text \<open>
  C5, as stated, fails in its last part: on a full buffer \<open>Stream_GetFeedPtr\<close> returns 0
  before the assignment through \<open>ptr\<close>, so no pointer to offset \<open>head\<close> is handed out
  and the caller's pointer stays as it was.
\<close>

theorem feed_pointer_unset_when_full_counterexample:
  "ring_inv full_context \<and>
   length_bytes (buffer full_context) = buffer_size (config full_context) \<and>
   Stream_GetFeedPtr full_context = (0, None) \<and>
   snd (Stream_GetFeedPtr full_context)
     \<noteq> Some (data (buffer full_context) + head (buffer full_context))"
  by (simp add: full_context_def example_context_def example_config_def ring_inv_def
      Stream_GetFeedPtr_def Let_def)

text \<open>
  C5, amended. On a buffer that satisfies the invariant (capacity within \<open>int\<close>),
  \<open>Stream_GetFeedPtr\<close> returns the length of the contiguous writable run starting at
  \<open>head\<close>, \<open>min (capacity - length) (capacity - head)\<close>, and returns zero exactly when
  the buffer is full. When the buffer is not full the pointer stored through \<open>ptr\<close>
  addresses offset \<open>head\<close> of the buffer; when it is full nothing is stored.
\<close>

theorem feed_pointer_contiguous_run:
  assumes inv: "ring_inv ctx"
    and fit: "fits_int (buffer_size (config ctx))"
  shows "unat (fst (Stream_GetFeedPtr ctx)) =
           min (unat (buffer_size (config ctx)) - unat (length_bytes (buffer ctx)))
               (unat (buffer_size (config ctx)) - unat (head (buffer ctx))) \<and>
         (fst (Stream_GetFeedPtr ctx) = 0
            \<longleftrightarrow> length_bytes (buffer ctx) = buffer_size (config ctx)) \<and>
         snd (Stream_GetFeedPtr ctx) =
           (if length_bytes (buffer ctx) = buffer_size (config ctx) then None
            else Some (data (buffer ctx) + head (buffer ctx)))"
proof -
  define c where "c = buffer_size (config ctx)"
  define l where "l = length_bytes (buffer ctx)"
  define h where "h = head (buffer ctx)"
  have le: "l \<le> c" and hc: "h < c"
    using inv by (simp_all add: ring_inv_def c_def l_def h_def)
  have fc: "fits_int c"
    using fit by (simp add: c_def)
  have ft: "fits_int (c - l)" and fh: "fits_int (c - h)"
    using fc le hc by (simp_all add: fits_int_diff)
  have ut: "unat (c - l) = unat c - unat l" and uh: "unat (c - h) = unat c - unat h"
    using le hc by (simp_all add: unat_sub)
  have nat: "unat l \<le> unat c" "unat h < unat c"
    using le hc by (simp_all add: word_le_nat_alt word_less_nat_alt)
  have zero: "sint (c - l) \<le> 0 \<longleftrightarrow> l = c"
  proof -
    have "sint (c - l) \<le> 0 \<longleftrightarrow> uint (c - l) = 0"
      using uint_ge_0 [of "c - l"] unfolding sint_fits [OF ft] by linarith
    also have "\<dots> \<longleftrightarrow> c - l = 0"
      by (rule uint_0_iff)
    finally show ?thesis
      by auto
  qed
  have less: "sint (c - l) < sint (c - h) \<longleftrightarrow> c - l < c - h"
    unfolding sint_fits [OF ft] sint_fits [OF fh] word_less_alt ..
  have res: "Stream_GetFeedPtr ctx =
               (if l = c then (0, None)
                else (min (c - l) (c - h), Some (data (buffer ctx) + h)))"
    using zero less by (auto simp: Stream_GetFeedPtr_def Let_def c_def l_def h_def min_def)
  show ?thesis
  proof (cases "l = c")
    case True
    then show ?thesis
      using res by (simp add: c_def l_def)
  next
    case False
    then have "unat l \<noteq> unat c"
      by (simp add: word_unat_eq_iff)
    then have pos: "0 < unat c - unat l" "0 < unat c - unat h"
      using nat by simp_all
    have run: "unat (fst (Stream_GetFeedPtr ctx)) = min (unat c - unat l) (unat c - unat h)"
      using res False ut uh by (simp add: unat_min_word)
    have "unat (fst (Stream_GetFeedPtr ctx)) \<noteq> 0"
      unfolding run using pos by simp
    then have "fst (Stream_GetFeedPtr ctx) \<noteq> 0"
      unfolding unat_eq_0 .
    with run show ?thesis
      using res False by (simp add: c_def l_def h_def)
  qed
qed

theorem feed_pointer_contiguous_run_witness:
  "ring_inv (ctxs empty_state 0) \<and>
   fits_int (buffer_size (config (ctxs empty_state 0))) \<and>
   unat (fst (Stream_GetFeedPtr (ctxs empty_state 0))) = min (4096 - 0) (4096 - 3072) \<and>
   snd (Stream_GetFeedPtr (ctxs empty_state 0)) = Some (0x80100000 + 3072)"
proof -
  have a: "ring_inv (ctxs empty_state 0)"
    by (simp add: empty_state_def example_system_def example_context_def example_config_def
        ring_inv_def)
  have b: "fits_int (buffer_size (config (ctxs empty_state 0)))"
    by (simp add: empty_state_def example_system_def example_context_def example_config_def
        fits_int_def)
  have c: "unat (buffer_size (config (ctxs empty_state 0))) = 4096"
    "unat (length_bytes (buffer (ctxs empty_state 0))) = 0"
    "unat (head (buffer (ctxs empty_state 0))) = 3072"
    "data (buffer (ctxs empty_state 0)) + head (buffer (ctxs empty_state 0)) = 0x80100000 + 3072"
    by (simp_all add: empty_state_def example_system_def example_context_def
        example_config_def)
  have d: "length_bytes (buffer (ctxs empty_state 0)) \<noteq> buffer_size (config (ctxs empty_state 0))"
    by (simp add: empty_state_def example_system_def example_context_def example_config_def)
  show ?thesis
    using a b d feed_pointer_contiguous_run [OF a b] unfolding c by simp
qed

text \<open>
  C6. Start from an empty buffer, head and tail anywhere. Feeding \<open>n\<close> bytes, \<open>n\<close> a
  multiple of \<open>chunk_size\<close> and at most the capacity, commits all \<open>n\<close>. Each of the next
  \<open>n / chunk_size\<close> invocations of the handler is a successful consumption: cycle
  \<open>i + 1\<close> starts with at least one chunk buffered, takes exactly \<open>chunk_size\<close> bytes,
  advances the chunk counter by one and calls no underrun callback; after \<open>i\<close> cycles
  \<open>n - i * chunk_size\<close> bytes are left and the tail stands \<open>i * chunk_size\<close> bytes
  further round the ring. After the last cycle the length is zero again, with head
  and tail together, wherever the data wrapped.
\<close>

theorem feed_consume_roundtrip:
  assumes act: "active_ctx s = Some p"
    and inv: "ring_inv (ctxs s p)"
    and fit: "fits_int (buffer_size (config (ctxs s p)))"
    and empty: "length_bytes (buffer (ctxs s p)) = 0"
    and fits: "n \<le> buffer_size (config (ctxs s p))"
    and chunks: "unat (chunk_size (ctxs s p)) dvd unat n"
  shows "\<exists>s1 ev s2.
           Stream_Feed p n s = Inr s1 \<and>
           length_bytes (buffer (ctxs s1 p)) = n \<and>
           consume (unat n div unat (chunk_size (ctxs s p))) s1 = Inr (ev, s2) \<and>
           underrun_calls ev = [] \<and>
           chunk_counter (ctxs s2 p) =
             chunk_counter (ctxs s p) + of_nat (unat n div unat (chunk_size (ctxs s p))) \<and>
           length_bytes (buffer (ctxs s2 p)) = 0 \<and>
           tail (buffer (ctxs s2 p)) = head (buffer (ctxs s2 p)) \<and>
           ring_inv (ctxs s2 p) \<and>
           (\<forall>i \<le> unat n div unat (chunk_size (ctxs s p)).
              \<exists>evi si. consume i s1 = Inr (evi, si) \<and>
                unat (length_bytes (buffer (ctxs si p))) =
                  unat n - i * unat (chunk_size (ctxs s p)) \<and>
                unat (tail (buffer (ctxs si p))) =
                  (unat (tail (buffer (ctxs s p))) + i * unat (chunk_size (ctxs s p)))
                    mod unat (buffer_size (config (ctxs s p))) \<and>
                head (buffer (ctxs si p)) = head (buffer (ctxs s1 p)) \<and>
                chunk_counter (ctxs si p) = chunk_counter (ctxs s p) + of_nat i) \<and>
           (\<forall>i < unat n div unat (chunk_size (ctxs s p)).
              \<exists>evi si ev' s'. consume i s1 = Inr (evi, si) \<and>
                chunk_size (ctxs si p) \<le> length_bytes (buffer (ctxs si p)) \<and>
                spu_irq_handler si = Inr (ev', s') \<and>
                consume (Suc i) s1 = Inr (evi @ ev', s') \<and>
                unat (length_bytes (buffer (ctxs s' p))) =
                  unat (length_bytes (buffer (ctxs si p))) - unat (chunk_size (ctxs s p)) \<and>
                chunk_counter (ctxs s' p) = chunk_counter (ctxs si p) + 1 \<and>
                underrun_calls ev' = [])"
proof -
  define k where "k = unat n div unat (chunk_size (ctxs s p))"
  from feed_nat [OF inv fit, of n] obtain s1
    where feed: "Stream_Feed p n s = Inr s1"
      and act1: "active_ctx s1 = active_ctx s"
      and cfg: "config (ctxs s1 p) = config (ctxs s p)"
      and chk: "chunk_size (ctxs s1 p) = chunk_size (ctxs s p)"
      and cnt: "chunk_counter (ctxs s1 p) = chunk_counter (ctxs s p)"
      and tl1: "tail (buffer (ctxs s1 p)) = tail (buffer (ctxs s p))"
      and len: "unat (length_bytes (buffer (ctxs s1 p))) =
                  unat (length_bytes (buffer (ctxs s p)))
                  + min (unat n) (unat (buffer_size (config (ctxs s p)))
                                  - unat (length_bytes (buffer (ctxs s p))))"
    by blast
  from ring_inv_feed [OF inv fit, of n] feed have inv1: "ring_inv (ctxs s1 p)"
    by auto
  have "unat n \<le> unat (buffer_size (config (ctxs s p)))"
    using fits by (simp add: word_le_nat_alt)
  then have ulen1: "unat (length_bytes (buffer (ctxs s1 p))) = unat n"
    using len empty by simp
  then have len1: "length_bytes (buffer (ctxs s1 p)) = n"
    by (simp add: word_unat_eq_iff)
  have nk: "unat n = k * unat (chunk_size (ctxs s p))"
    using chunks by (simp add: k_def)
  have kk: "unat (length_bytes (buffer (ctxs s1 p))) = k * unat (chunk_size (ctxs s1 p))"
    using nk ulen1 chk by simp
  have act1': "active_ctx s1 = Some p"
    using act act1 by simp
  have fit1: "fits_int (buffer_size (config (ctxs s1 p)))"
    using cfg fit by simp
  have prefix: "\<exists>evi si. consume i s1 = Inr (evi, si) \<and>
                  active_ctx si = Some p \<and> ring_inv (ctxs si p) \<and>
                  config (ctxs si p) = config (ctxs s p) \<and>
                  chunk_size (ctxs si p) = chunk_size (ctxs s p) \<and>
                  unat (length_bytes (buffer (ctxs si p))) =
                    unat n - i * unat (chunk_size (ctxs s p)) \<and>
                  unat (tail (buffer (ctxs si p))) =
                    (unat (tail (buffer (ctxs s p))) + i * unat (chunk_size (ctxs s p)))
                      mod unat (buffer_size (config (ctxs s p))) \<and>
                  head (buffer (ctxs si p)) = head (buffer (ctxs s1 p)) \<and>
                  chunk_counter (ctxs si p) = chunk_counter (ctxs s p) + of_nat i"
    if "i \<le> k" for i
  proof -
    have "(k - i) * unat (chunk_size (ctxs s p)) = unat n - i * unat (chunk_size (ctxs s p))"
      using nk by (simp add: diff_mult_distrib)
    with consume_prefix [OF act1' inv1 fit1 kk that] show ?thesis
      using cfg chk cnt tl1 by auto
  qed
  have cycle: "\<exists>evi si ev' s'. consume i s1 = Inr (evi, si) \<and>
                chunk_size (ctxs si p) \<le> length_bytes (buffer (ctxs si p)) \<and>
                spu_irq_handler si = Inr (ev', s') \<and>
                consume (Suc i) s1 = Inr (evi @ ev', s') \<and>
                unat (length_bytes (buffer (ctxs s' p))) =
                  unat (length_bytes (buffer (ctxs si p))) - unat (chunk_size (ctxs s p)) \<and>
                chunk_counter (ctxs s' p) = chunk_counter (ctxs si p) + 1 \<and>
                underrun_calls ev' = []"
    if "i < k" for i
  proof -
    from prefix [of i] that obtain evi si
      where run: "consume i s1 = Inr (evi, si)"
        and acti: "active_ctx si = Some p" and invi: "ring_inv (ctxs si p)"
        and cfgi: "config (ctxs si p) = config (ctxs s p)"
        and chki: "chunk_size (ctxs si p) = chunk_size (ctxs s p)"
        and leni: "unat (length_bytes (buffer (ctxs si p))) =
                     unat n - i * unat (chunk_size (ctxs s p))"
      by auto
    have "Suc i * unat (chunk_size (ctxs s p)) \<le> k * unat (chunk_size (ctxs s p))"
      using that by (intro mult_le_mono1) simp
    then have "unat (chunk_size (ctxs si p)) \<le> unat (length_bytes (buffer (ctxs si p)))"
      using leni chki nk by simp
    then have enough: "chunk_size (ctxs si p) \<le> length_bytes (buffer (ctxs si p))"
      by (simp add: word_le_nat_alt)
    have fiti: "fits_int (buffer_size (config (ctxs si p)))"
      using cfgi fit by simp
    from consume_nat [OF acti invi fiti enough] obtain ev' s'
      where irq: "spu_irq_handler si = Inr (ev', s')"
        and cnt': "chunk_counter (ctxs s' p) = chunk_counter (ctxs si p) + 1"
        and und': "underrun_calls ev' = []"
        and len': "unat (length_bytes (buffer (ctxs s' p))) =
               unat (length_bytes (buffer (ctxs si p))) - unat (chunk_size (ctxs si p))"
      by blast
    have next_cycle: "consume (Suc i) s1 = Inr (evi @ ev', s')"
      using run irq by (rule consume_Suc_end)
    have "consume i s1 = Inr (evi, si) \<and>
          chunk_size (ctxs si p) \<le> length_bytes (buffer (ctxs si p)) \<and>
          spu_irq_handler si = Inr (ev', s') \<and>
          consume (Suc i) s1 = Inr (evi @ ev', s') \<and>
          unat (length_bytes (buffer (ctxs s' p))) =
            unat (length_bytes (buffer (ctxs si p))) - unat (chunk_size (ctxs s p)) \<and>
          chunk_counter (ctxs s' p) = chunk_counter (ctxs si p) + 1 \<and>
          underrun_calls ev' = []"
      using run enough irq next_cycle cnt' und' len' chki by (simp del: consume.simps)
    then show ?thesis
      by blast
  qed
  from consume_all [OF act1' inv1 fit1 kk] obtain ev s2
    where all: "consume k s1 = Inr (ev, s2)"
      and inv2: "ring_inv (ctxs s2 p)"
      and len2: "length_bytes (buffer (ctxs s2 p)) = 0"
      and cnt2: "chunk_counter (ctxs s2 p) = chunk_counter (ctxs s1 p) + of_nat k"
      and und2: "underrun_calls ev = []"
    by blast
  have together: "tail (buffer (ctxs s2 p)) = head (buffer (ctxs s2 p))"
  proof -
    have "unat (tail (buffer (ctxs s2 p))) < unat (buffer_size (config (ctxs s2 p)))"
      using inv2 by (simp add: ring_inv_def word_less_nat_alt)
    moreover have "unat (tail (buffer (ctxs s2 p))) mod unat (buffer_size (config (ctxs s2 p)))
                     = unat (head (buffer (ctxs s2 p)))"
      using inv2 len2 by (simp add: ring_inv_def)
    ultimately have "unat (tail (buffer (ctxs s2 p))) = unat (head (buffer (ctxs s2 p)))"
      by simp
    then show ?thesis
      by (simp add: word_unat_eq_iff)
  qed
  have per_prefix: "\<forall>i \<le> k.
              \<exists>evi si. consume i s1 = Inr (evi, si) \<and>
                unat (length_bytes (buffer (ctxs si p))) =
                  unat n - i * unat (chunk_size (ctxs s p)) \<and>
                unat (tail (buffer (ctxs si p))) =
                  (unat (tail (buffer (ctxs s p))) + i * unat (chunk_size (ctxs s p)))
                    mod unat (buffer_size (config (ctxs s p))) \<and>
                head (buffer (ctxs si p)) = head (buffer (ctxs s1 p)) \<and>
                chunk_counter (ctxs si p) = chunk_counter (ctxs s p) + of_nat i"
  proof (intro allI impI)
    fix i assume "i \<le> k"
    from prefix [OF this] obtain evi si
      where "consume i s1 = Inr (evi, si) \<and>
                unat (length_bytes (buffer (ctxs si p))) =
                  unat n - i * unat (chunk_size (ctxs s p)) \<and>
                unat (tail (buffer (ctxs si p))) =
                  (unat (tail (buffer (ctxs s p))) + i * unat (chunk_size (ctxs s p)))
                    mod unat (buffer_size (config (ctxs s p))) \<and>
                head (buffer (ctxs si p)) = head (buffer (ctxs s1 p)) \<and>
                chunk_counter (ctxs si p) = chunk_counter (ctxs s p) + of_nat i"
      by blast
    then show "\<exists>evi si. consume i s1 = Inr (evi, si) \<and>
                unat (length_bytes (buffer (ctxs si p))) =
                  unat n - i * unat (chunk_size (ctxs s p)) \<and>
                unat (tail (buffer (ctxs si p))) =
                  (unat (tail (buffer (ctxs s p))) + i * unat (chunk_size (ctxs s p)))
                    mod unat (buffer_size (config (ctxs s p))) \<and>
                head (buffer (ctxs si p)) = head (buffer (ctxs s1 p)) \<and>
                chunk_counter (ctxs si p) = chunk_counter (ctxs s p) + of_nat i"
      by blast
  qed
  have per_cycle: "\<forall>i < k.
              \<exists>evi si ev' s'. consume i s1 = Inr (evi, si) \<and>
                chunk_size (ctxs si p) \<le> length_bytes (buffer (ctxs si p)) \<and>
                spu_irq_handler si = Inr (ev', s') \<and>
                consume (Suc i) s1 = Inr (evi @ ev', s') \<and>
                unat (length_bytes (buffer (ctxs s' p))) =
                  unat (length_bytes (buffer (ctxs si p))) - unat (chunk_size (ctxs s p)) \<and>
                chunk_counter (ctxs s' p) = chunk_counter (ctxs si p) + 1 \<and>
                underrun_calls ev' = []"
    using cycle by (intro allI impI)
  have cnt2': "chunk_counter (ctxs s2 p) = chunk_counter (ctxs s p) + of_nat k"
    using cnt2 cnt by simp
  show ?thesis
    unfolding k_def [symmetric]
    using feed len1 all und2 cnt2' len2 together inv2 per_prefix per_cycle
    by (intro exI [of _ s1] exI [of _ ev] exI [of _ s2] conjI)
qed

theorem feed_consume_roundtrip_witness:
  "\<exists>s1 ev s2.
     Stream_Feed 0 2048 empty_state = Inr s1 \<and>
     length_bytes (buffer (ctxs s1 0)) = 2048 \<and>
     consume 2 s1 = Inr (ev, s2) \<and>
     underrun_calls ev = [] \<and>
     chunk_counter (ctxs s2 0) = chunk_counter (ctxs empty_state 0) + 2 \<and>
     length_bytes (buffer (ctxs s2 0)) = 0 \<and>
     (\<exists>evi si ev' s'.
        consume 1 s1 = Inr (evi, si) \<and>
        unat (length_bytes (buffer (ctxs si 0))) = 1024 \<and>
        unat (tail (buffer (ctxs si 0))) = 0 \<and>
        spu_irq_handler si = Inr (ev', s') \<and>
        unat (length_bytes (buffer (ctxs s' 0))) = 0)"
proof -
  have a: "active_ctx empty_state = Some 0"
    by (simp add: empty_state_def example_system_def)
  have b: "ring_inv (ctxs empty_state 0)"
    by (simp add: empty_state_def example_system_def example_context_def example_config_def
        ring_inv_def)
  have c: "fits_int (buffer_size (config (ctxs empty_state 0)))"
    by (simp add: empty_state_def example_system_def example_context_def example_config_def
        fits_int_def)
  have d: "length_bytes (buffer (ctxs empty_state 0)) = 0"
    by (simp add: empty_state_def example_system_def example_context_def)
  have e: "(2048 :: u32) \<le> buffer_size (config (ctxs empty_state 0))"
    by (simp add: empty_state_def example_system_def example_context_def example_config_def)
  have k: "unat (chunk_size (ctxs empty_state 0)) = 1024" "unat (2048 :: u32) = 2048"
    "unat (tail (buffer (ctxs empty_state 0))) = 3072"
    "unat (buffer_size (config (ctxs empty_state 0))) = 4096"
    by (simp_all add: empty_state_def example_system_def example_context_def
        example_config_def)
  have f: "unat (chunk_size (ctxs empty_state 0)) dvd unat (2048 :: u32)"
    unfolding k by simp
  have g: "unat (2048 :: u32) div unat (chunk_size (ctxs empty_state 0)) = 2"
    unfolding k by simp
  from feed_consume_roundtrip [OF a b c d e f] obtain s1 ev s2
    where feed: "Stream_Feed 0 2048 empty_state = Inr s1"
      and len1: "length_bytes (buffer (ctxs s1 0)) = 2048"
      and all: "consume 2 s1 = Inr (ev, s2)"
      and und: "underrun_calls ev = []"
      and cnt: "chunk_counter (ctxs s2 0) = chunk_counter (ctxs empty_state 0) + 2"
      and len2: "length_bytes (buffer (ctxs s2 0)) = 0"
      and prefix: "\<forall>i \<le> 2.
              \<exists>evi si. consume i s1 = Inr (evi, si) \<and>
                unat (length_bytes (buffer (ctxs si 0))) = 2048 - i * 1024 \<and>
                unat (tail (buffer (ctxs si 0))) = (3072 + i * 1024) mod 4096 \<and>
                head (buffer (ctxs si 0)) = head (buffer (ctxs s1 0)) \<and>
                chunk_counter (ctxs si 0) = chunk_counter (ctxs empty_state 0) + of_nat i"
      and cycle: "\<forall>i < 2.
              \<exists>evi si ev' s'. consume i s1 = Inr (evi, si) \<and>
                chunk_size (ctxs si 0) \<le> length_bytes (buffer (ctxs si 0)) \<and>
                spu_irq_handler si = Inr (ev', s') \<and>
                consume (Suc i) s1 = Inr (evi @ ev', s') \<and>
                unat (length_bytes (buffer (ctxs s' 0))) =
                  unat (length_bytes (buffer (ctxs si 0))) - 1024 \<and>
                chunk_counter (ctxs s' 0) = chunk_counter (ctxs si 0) + 1 \<and>
                underrun_calls ev' = []"
    unfolding g k by (auto simp del: consume.simps)
  from prefix [THEN spec, of 1] obtain evi si
    where one: "consume 1 s1 = Inr (evi, si)"
      and leni: "unat (length_bytes (buffer (ctxs si 0))) = 1024"
      and tli: "unat (tail (buffer (ctxs si 0))) = 0"
    by (auto simp del: consume.simps)
  from cycle [THEN spec, of 1] obtain evj sj ev' s'
    where one': "consume 1 s1 = Inr (evj, sj)"
      and irq: "spu_irq_handler sj = Inr (ev', s')"
      and len': "unat (length_bytes (buffer (ctxs s' 0))) =
                   unat (length_bytes (buffer (ctxs sj 0))) - 1024"
    by (auto simp del: consume.simps)
  have same: "sj = si"
    using one one' by simp
  have "consume 1 s1 = Inr (evi, si) \<and>
        unat (length_bytes (buffer (ctxs si 0))) = 1024 \<and>
        unat (tail (buffer (ctxs si 0))) = 0 \<and>
        spu_irq_handler si = Inr (ev', s') \<and>
        unat (length_bytes (buffer (ctxs s' 0))) = 0"
    using one leni tli irq len' same by (simp del: consume.simps)
  then show ?thesis
    using feed len1 all und cnt len2 by blast
qed

section \<open>Refill callback\<close>

text \<open>
  C1. The refill callback fires at most once per dip, and at every dip.
  First, a handler invocation that takes a chunk, leaves the length at or below the
  refill threshold and finds \<open>callback_issued\<close> clear calls the registered refill
  callback once and sets the flag. Second, take any state in which the handler has just
  called the refill callback and any sequence of feed and consumption operations run
  from there: if the callback is called again at operation \<open>j\<close>, then that operation is
  a consumption that leaves the length at or below the threshold, and some earlier
  operation \<open>k < j\<close> of the sequence is a feed that left the length strictly above the
  threshold and the flag clear. Third, on a buffer of non-zero size every such sequence
  runs to its end.

  The flag is clear whenever the length is above the threshold: \<open>Stream_Init\<close> leaves
  the flag clear; a feed that leaves the length above the threshold clears it and any
  other feed leaves it as it was; the handler sets the flag exactly when it takes a
  chunk and leaves the length at or below the threshold, calls the callback exactly
  when it does so with the flag clear, and keeps the invariant. So a consumption that
  takes the length from above the threshold to or below it always calls the callback,
  in one step and at every such operation of every run from a state in good order.
\<close>

theorem refill_once_per_dip:
  "(active_ctx s = Some p \<and>
    fits_int (length_bytes (buffer (ctxs s p))) \<and> fits_int (chunk_size (ctxs s p)) \<and>
    buffer_size (config (ctxs s p)) \<noteq> 0 \<and>
    chunk_size (ctxs s p) \<le> length_bytes (buffer (ctxs s p)) \<and>
    length_bytes (buffer (ctxs s p)) - chunk_size (ctxs s p)
      \<le> refill_threshold (config (ctxs s p)) \<and>
    \<not> callback_issued (ctxs s p) \<and>
    refill_callback (config (ctxs s p)) = Some f \<longrightarrow>
      (\<exists>ev s1. spu_irq_handler s = Inr (ev, s1) \<and> refill_calls ev = [f] \<and>
         callback_issued (ctxs s1 p) \<and> \<not> above_threshold (ctxs s1 p))) \<and>
   (active_ctx s = Some p \<and> spu_irq_handler s = Inr (ev, s1) \<and> refill_calls ev \<noteq> [] \<and>
    run p ops s1 = Inr r \<and> j < length r \<and> refill_calls (fst (r ! j)) \<noteq> [] \<longrightarrow>
      callback_issued (ctxs s1 p) \<and>
      ops ! j = Consume \<and>
      \<not> above_threshold (ctxs (snd (r ! j)) p) \<and>
      (\<exists>g. refill_calls (fst (r ! j)) = [g]) \<and>
      (\<exists>k<j. \<exists>n. ops ! k = Feed n \<and>
         above_threshold (ctxs (snd (r ! k)) p) \<and>
         \<not> callback_issued (ctxs (snd (r ! k)) p))) \<and>
   (active_ctx s = Some p \<and> buffer_size (config (ctxs s p)) \<noteq> 0 \<longrightarrow>
      (\<exists>r. run p ops s = Inr r \<and> length r = length ops)) \<and>
   (count_channels (channel_mask cfg) 0 \<noteq> 0 \<and> mem \<noteq> 0 \<longrightarrow>
      (\<exists>s'. Stream_Init p cfg mem s = Inr s' \<and>
         \<not> callback_issued (ctxs s' p) \<and> flag_inv (ctxs s' p))) \<and>
   (buffer_size (config (ctxs s p)) \<noteq> 0 \<longrightarrow>
      (\<exists>s'. Stream_Feed p n s = Inr s' \<and>
         (above_threshold (ctxs s' p) \<longrightarrow> \<not> callback_issued (ctxs s' p)) \<and>
         (\<not> above_threshold (ctxs s' p) \<longrightarrow>
            callback_issued (ctxs s' p) = callback_issued (ctxs s p)) \<and>
         flag_inv (ctxs s' p))) \<and>
   (active_ctx s = Some p \<and>
    fits_int (length_bytes (buffer (ctxs s p))) \<and> fits_int (chunk_size (ctxs s p)) \<and>
    buffer_size (config (ctxs s p)) \<noteq> 0 \<longrightarrow>
      (\<exists>ev s'. spu_irq_handler s = Inr (ev, s') \<and>
         (callback_issued (ctxs s' p) \<longleftrightarrow>
            callback_issued (ctxs s p) \<or>
            (chunk_size (ctxs s p) \<le> length_bytes (buffer (ctxs s p)) \<and>
             \<not> above_threshold (ctxs s' p))) \<and>
         refill_calls ev =
           (if chunk_size (ctxs s p) \<le> length_bytes (buffer (ctxs s p)) \<and>
               \<not> above_threshold (ctxs s' p) \<and> \<not> callback_issued (ctxs s p)
            then (case refill_callback (config (ctxs s p)) of None \<Rightarrow> [] | Some f \<Rightarrow> [f])
            else []) \<and>
         (flag_inv (ctxs s p) \<longrightarrow> flag_inv (ctxs s' p)) \<and>
         (flag_inv (ctxs s p) \<and> above_threshold (ctxs s p) \<and>
          \<not> above_threshold (ctxs s' p) \<longrightarrow>
            callback_issued (ctxs s' p) \<and>
            refill_calls ev =
              (case refill_callback (config (ctxs s p)) of None \<Rightarrow> [] | Some f \<Rightarrow> [f])))) \<and>
   (active_ctx s = Some p \<and> ring_inv (ctxs s p) \<and>
    fits_int (buffer_size (config (ctxs s p))) \<and> fits_int (chunk_size (ctxs s p)) \<and>
    flag_inv (ctxs s p) \<and> run p qs s = Inr rs \<and> i < length rs \<longrightarrow>
      flag_inv (ctxs (snd (rs ! i)) p) \<and>
      (qs ! i = Consume \<and> above_threshold (ctxs (state_before s rs i) p) \<and>
       \<not> above_threshold (ctxs (snd (rs ! i)) p) \<longrightarrow>
         refill_calls (fst (rs ! i)) =
           (case refill_callback (config (ctxs s p)) of None \<Rightarrow> [] | Some f \<Rightarrow> [f])))"
proof -
  have fires: "\<exists>ev s1. spu_irq_handler s = Inr (ev, s1) \<and> refill_calls ev = [f] \<and>
         callback_issued (ctxs s1 p) \<and> \<not> above_threshold (ctxs s1 p)"
    if a: "active_ctx s = Some p \<and>
      fits_int (length_bytes (buffer (ctxs s p))) \<and> fits_int (chunk_size (ctxs s p)) \<and>
      buffer_size (config (ctxs s p)) \<noteq> 0 \<and>
      chunk_size (ctxs s p) \<le> length_bytes (buffer (ctxs s p)) \<and>
      length_bytes (buffer (ctxs s p)) - chunk_size (ctxs s p)
        \<le> refill_threshold (config (ctxs s p)) \<and>
      \<not> callback_issued (ctxs s p) \<and>
      refill_callback (config (ctxs s p)) = Some f"
  proof -
    from a have act: "active_ctx s = Some p"
      and fl: "fits_int (length_bytes (buffer (ctxs s p)))"
      and fk: "fits_int (chunk_size (ctxs s p))"
      and nz: "buffer_size (config (ctxs s p)) \<noteq> 0"
      and enough: "\<not> length_bytes (buffer (ctxs s p)) < chunk_size (ctxs s p)"
      by (simp_all add: not_less)
    have go: "\<not> sint (length_bytes (buffer (ctxs s p)) - chunk_size (ctxs s p)) < 0"
      using enough unfolding sint_sub_neg_iff [OF fl fk] .
    from irq_consume [OF act go nz] a show ?thesis
      by (auto simp: above_threshold_def)
  qed
  have again: "callback_issued (ctxs s1 p) \<and>
      ops ! j = Consume \<and>
      \<not> above_threshold (ctxs (snd (r ! j)) p) \<and>
      (\<exists>g. refill_calls (fst (r ! j)) = [g]) \<and>
      (\<exists>k<j. \<exists>n. ops ! k = Feed n \<and>
         above_threshold (ctxs (snd (r ! k)) p) \<and>
         \<not> callback_issued (ctxs (snd (r ! k)) p))"
    if b: "active_ctx s = Some p \<and> spu_irq_handler s = Inr (ev, s1) \<and>
      refill_calls ev \<noteq> [] \<and>
      run p ops s1 = Inr r \<and> j < length r \<and> refill_calls (fst (r ! j)) \<noteq> []"
  proof -
    from b have first: "active_ctx s1 = Some p" "callback_issued (ctxs s1 p)"
      using irq_result [of s p ev s1] by simp_all
    from b fire_facts [OF first(1), of ops r j] first show ?thesis
      by simp
  qed
  have total: "\<exists>r. run p ops s = Inr r \<and> length r = length ops"
    if "active_ctx s = Some p \<and> buffer_size (config (ctxs s p)) \<noteq> 0"
    using that by (simp add: run_total)
  have init: "\<exists>s'. Stream_Init p cfg mem s = Inr s' \<and>
         \<not> callback_issued (ctxs s' p) \<and> flag_inv (ctxs s' p)"
    if "count_channels (channel_mask cfg) 0 \<noteq> 0 \<and> mem \<noteq> 0"
    using that init_fields [of cfg mem p s] by (auto simp: flag_inv_def)
  have feed: "\<exists>s'. Stream_Feed p n s = Inr s' \<and>
         (above_threshold (ctxs s' p) \<longrightarrow> \<not> callback_issued (ctxs s' p)) \<and>
         (\<not> above_threshold (ctxs s' p) \<longrightarrow>
            callback_issued (ctxs s' p) = callback_issued (ctxs s p)) \<and>
         flag_inv (ctxs s' p)"
    if nz: "buffer_size (config (ctxs s p)) \<noteq> 0"
  proof -
    from feed_fields [OF nz, of n] obtain s' where f: "Stream_Feed p n s = Inr s'"
      by blast
    from feed_result [OF f] f show ?thesis
      by (auto simp: flag_inv_def)
  qed
  have handler: "\<exists>ev s'. spu_irq_handler s = Inr (ev, s') \<and>
         (callback_issued (ctxs s' p) \<longleftrightarrow>
            callback_issued (ctxs s p) \<or>
            (chunk_size (ctxs s p) \<le> length_bytes (buffer (ctxs s p)) \<and>
             \<not> above_threshold (ctxs s' p))) \<and>
         refill_calls ev =
           (if chunk_size (ctxs s p) \<le> length_bytes (buffer (ctxs s p)) \<and>
               \<not> above_threshold (ctxs s' p) \<and> \<not> callback_issued (ctxs s p)
            then (case refill_callback (config (ctxs s p)) of None \<Rightarrow> [] | Some f \<Rightarrow> [f])
            else []) \<and>
         (flag_inv (ctxs s p) \<longrightarrow> flag_inv (ctxs s' p)) \<and>
         (flag_inv (ctxs s p) \<and> above_threshold (ctxs s p) \<and>
          \<not> above_threshold (ctxs s' p) \<longrightarrow>
            callback_issued (ctxs s' p) \<and>
            refill_calls ev =
              (case refill_callback (config (ctxs s p)) of None \<Rightarrow> [] | Some f \<Rightarrow> [f]))"
    if c: "active_ctx s = Some p \<and>
      fits_int (length_bytes (buffer (ctxs s p))) \<and> fits_int (chunk_size (ctxs s p)) \<and>
      buffer_size (config (ctxs s p)) \<noteq> 0"
  proof -
    from c have act: "active_ctx s = Some p"
      and fl: "fits_int (length_bytes (buffer (ctxs s p)))"
      and fk: "fits_int (chunk_size (ctxs s p))"
      and nz: "buffer_size (config (ctxs s p)) \<noteq> 0"
      by simp_all
    from irq_flag [OF act fl fk nz] obtain ev s'
      where irq: "spu_irq_handler s = Inr (ev, s')"
        and flag: "callback_issued (ctxs s' p) \<longleftrightarrow>
            callback_issued (ctxs s p) \<or>
            (chunk_size (ctxs s p) \<le> length_bytes (buffer (ctxs s p)) \<and>
             \<not> above_threshold (ctxs s' p))"
        and calls: "refill_calls ev =
           (if chunk_size (ctxs s p) \<le> length_bytes (buffer (ctxs s p)) \<and>
               \<not> above_threshold (ctxs s' p) \<and> \<not> callback_issued (ctxs s p)
            then (case refill_callback (config (ctxs s p)) of None \<Rightarrow> [] | Some f \<Rightarrow> [f])
            else [])"
        and down: "above_threshold (ctxs s' p) \<longrightarrow> above_threshold (ctxs s p)"
        and same: "length_bytes (buffer (ctxs s p)) < chunk_size (ctxs s p) \<longrightarrow>
              ctxs s' p = ctxs s p"
      by blast
    have keep: "flag_inv (ctxs s' p)" if "flag_inv (ctxs s p)"
      using that flag down by (auto simp: flag_inv_def)
    have dip: "callback_issued (ctxs s' p) \<and>
            refill_calls ev =
              (case refill_callback (config (ctxs s p)) of None \<Rightarrow> [] | Some f \<Rightarrow> [f])"
      if d: "flag_inv (ctxs s p) \<and> above_threshold (ctxs s p) \<and>
             \<not> above_threshold (ctxs s' p)"
    proof -
      have "\<not> length_bytes (buffer (ctxs s p)) < chunk_size (ctxs s p)"
        using d same by auto
      then have "chunk_size (ctxs s p) \<le> length_bytes (buffer (ctxs s p))"
        by (simp add: not_less)
      then show ?thesis
        using d flag calls by (simp add: flag_inv_def)
    qed
    show ?thesis
      using irq flag calls keep dip by blast
  qed
  have runs: "flag_inv (ctxs (snd (rs ! i)) p) \<and>
      (qs ! i = Consume \<and> above_threshold (ctxs (state_before s rs i) p) \<and>
       \<not> above_threshold (ctxs (snd (rs ! i)) p) \<longrightarrow>
         refill_calls (fst (rs ! i)) =
           (case refill_callback (config (ctxs s p)) of None \<Rightarrow> [] | Some f \<Rightarrow> [f]))"
    if e: "active_ctx s = Some p \<and> ring_inv (ctxs s p) \<and>
      fits_int (buffer_size (config (ctxs s p))) \<and> fits_int (chunk_size (ctxs s p)) \<and>
      flag_inv (ctxs s p) \<and> run p qs s = Inr rs \<and> i < length rs"
  proof -
    from e have ok: "stream_ok p s" and run: "run p qs s = Inr rs" and i: "i < length rs"
      by (simp_all add: stream_ok_def)
    from run_dips [OF ok run i] show ?thesis
      by (simp add: stream_ok_def)
  qed
  show ?thesis
    by (intro conjI; rule impI;
        (erule fires | erule again | erule total | erule init | erule feed
         | erule handler | erule runs))
qed

theorem refill_once_per_dip_witness:
  "(\<exists>ev s1 r.
     spu_irq_handler dip_state = Inr (ev, s1) \<and>
     refill_calls ev = [1] \<and>
     callback_issued (ctxs s1 0) \<and>
     run 0 [Feed 1024, Consume] s1 = Inr r \<and>
     refill_calls (fst (r ! 1)) = [1] \<and>
     [Feed 1024, Consume] ! 1 = Consume \<and>
     \<not> above_threshold (ctxs (snd (r ! 1)) 0) \<and>
     (\<exists>k<1. \<exists>n. [Feed 1024, Consume] ! k = Feed n \<and>
        above_threshold (ctxs (snd (r ! k)) 0) \<and>
        \<not> callback_issued (ctxs (snd (r ! k)) 0))) \<and>
   (\<exists>rs.
     run 0 [Consume, Consume, Consume, Consume] consume_state = Inr rs \<and>
     map (\<lambda>x. refill_calls (fst x)) rs = [[], [1], [], []] \<and>
     map (\<lambda>x. length_bytes (buffer (ctxs (snd x) 0))) rs = [3072, 2048, 1024, 0] \<and>
     above_threshold (ctxs (state_before consume_state rs 1) 0) \<and>
     \<not> above_threshold (ctxs (snd (rs ! 1)) 0) \<and>
     flag_inv (ctxs (snd (rs ! 1)) 0) \<and>
     refill_calls (fst (rs ! 1)) = [1])"
proof -
  from dip_eval obtain ev s1
    where irq: "spu_irq_handler dip_state = Inr (ev, s1)"
      and once: "refill_calls ev = [1]"
      and rest: "case run 0 [Feed 1024, Consume] s1 of
                   Inl e \<Rightarrow> False
                 | Inr r \<Rightarrow> length r = 2 \<and> refill_calls (fst (r ! 1)) = [1]"
    by (cases "spu_irq_handler dip_state") (auto simp del: run.simps)
  from rest obtain r
    where run: "run 0 [Feed 1024, Consume] s1 = Inr r"
      and len: "length r = 2"
      and again: "refill_calls (fst (r ! 1)) = [1]"
    by (cases "run 0 [Feed 1024, Consume] s1") (auto simp del: run.simps)
  have act: "active_ctx dip_state = Some 0"
    by (simp add: dip_state_def example_system_def)
  have second: "active_ctx dip_state = Some 0 \<and> spu_irq_handler dip_state = Inr (ev, s1) \<and>
    refill_calls ev \<noteq> [] \<and>
    run 0 [Feed 1024, Consume] s1 = Inr r \<and> 1 < length r \<and>
    refill_calls (fst (r ! 1)) \<noteq> []"
    using act irq once run len again by simp
  note dip = refill_once_per_dip [where s = dip_state and p = 0 and ev = ev and ?s1.0 = s1
        and ops = "[Feed 1024, Consume]" and r = r and j = 1]
  from dip [THEN conjunct2, THEN conjunct1, THEN mp, OF second]
  have part2: "callback_issued (ctxs s1 0) \<and>
      [Feed 1024, Consume] ! 1 = Consume \<and>
      \<not> above_threshold (ctxs (snd (r ! 1)) 0) \<and>
      (\<exists>g. refill_calls (fst (r ! 1)) = [g]) \<and>
      (\<exists>k<1. \<exists>n. [Feed 1024, Consume] ! k = Feed n \<and>
         above_threshold (ctxs (snd (r ! k)) 0) \<and>
         \<not> callback_issued (ctxs (snd (r ! k)) 0))" .
  have left: "\<exists>ev s1 r.
     spu_irq_handler dip_state = Inr (ev, s1) \<and>
     refill_calls ev = [1] \<and>
     callback_issued (ctxs s1 0) \<and>
     run 0 [Feed 1024, Consume] s1 = Inr r \<and>
     refill_calls (fst (r ! 1)) = [1] \<and>
     [Feed 1024, Consume] ! 1 = Consume \<and>
     \<not> above_threshold (ctxs (snd (r ! 1)) 0) \<and>
     (\<exists>k<1. \<exists>n. [Feed 1024, Consume] ! k = Feed n \<and>
        above_threshold (ctxs (snd (r ! k)) 0) \<and>
        \<not> callback_issued (ctxs (snd (r ! k)) 0))"
    using irq once run again part2 by blast
  from scenario_eval obtain rs
    where runs: "run 0 [Consume, Consume, Consume, Consume] consume_state = Inr rs"
      and lens: "length rs = 4"
      and calls: "map (\<lambda>x. refill_calls (fst x)) rs = [[], [1], [], []]"
      and bytes: "map (\<lambda>x. length_bytes (buffer (ctxs (snd x) 0))) rs = [3072, 2048, 1024, 0]"
      and above: "map (\<lambda>x. above_threshold (ctxs (snd x) 0)) rs = [True, False, False, False]"
    by (cases "run 0 [Consume, Consume, Consume, Consume] consume_state")
       (auto simp del: run.simps)
  have before: "above_threshold (ctxs (state_before consume_state rs 1) 0)"
    using nth_map [of 0 rs "\<lambda>x. above_threshold (ctxs (snd x) 0)"] lens above
    by (simp add: state_before_def)
  have after: "\<not> above_threshold (ctxs (snd (rs ! 1)) 0)"
    using nth_map [of 1 rs "\<lambda>x. above_threshold (ctxs (snd x) 0)"] lens above by simp
  have ok: "active_ctx consume_state = Some 0 \<and> ring_inv (ctxs consume_state 0) \<and>
    fits_int (buffer_size (config (ctxs consume_state 0))) \<and>
    fits_int (chunk_size (ctxs consume_state 0)) \<and>
    flag_inv (ctxs consume_state 0) \<and>
    run 0 [Consume, Consume, Consume, Consume] consume_state = Inr rs \<and> 1 < length rs"
    using runs lens
    by (simp add: consume_state_def example_system_def example_context_def example_config_def
        ring_inv_def fits_int_def flag_inv_def del: run.simps)
  have cb: "refill_callback (config (ctxs consume_state 0)) = Some 1"
    by (simp add: consume_state_def example_system_def example_context_def example_config_def)
  note scenario = refill_once_per_dip [where s = consume_state and p = 0
        and qs = "[Consume, Consume, Consume, Consume]" and rs = rs and i = 1]
  from scenario [THEN conjunct2, THEN conjunct2, THEN conjunct2, THEN conjunct2,
      THEN conjunct2, THEN conjunct2, THEN mp, OF ok]
  have part7: "flag_inv (ctxs (snd (rs ! 1)) 0) \<and>
      ([Consume, Consume, Consume, Consume] ! 1 = Consume \<and>
       above_threshold (ctxs (state_before consume_state rs 1) 0) \<and>
       \<not> above_threshold (ctxs (snd (rs ! 1)) 0) \<longrightarrow>
         refill_calls (fst (rs ! 1)) =
           (case refill_callback (config (ctxs consume_state 0)) of
              None \<Rightarrow> [] | Some f \<Rightarrow> [f]))" .
  then have fired: "refill_calls (fst (rs ! 1)) = [1]"
    using before after cb by simp
  have right: "\<exists>rs.
     run 0 [Consume, Consume, Consume, Consume] consume_state = Inr rs \<and>
     map (\<lambda>x. refill_calls (fst x)) rs = [[], [1], [], []] \<and>
     map (\<lambda>x. length_bytes (buffer (ctxs (snd x) 0))) rs = [3072, 2048, 1024, 0] \<and>
     above_threshold (ctxs (state_before consume_state rs 1) 0) \<and>
     \<not> above_threshold (ctxs (snd (rs ! 1)) 0) \<and>
     flag_inv (ctxs (snd (rs ! 1)) 0) \<and>
     refill_calls (fst (rs ! 1)) = [1]"
    using runs calls bytes before after part7 [THEN conjunct1] fired
    by (intro exI [of _ rs] conjI)
  show ?thesis
    using left right by (rule conjI)
qed

end
